theory Spec2Isabelle
  imports Complex_Main
begin

section \<open>Lambda janitor: the cleanup handler of src/lambda_janitor/main.py\<close>

text \<open>
  The module is one handler, \<open>lambda_handler\<close>, and three helpers
  (\<open>get_invocation_count\<close>, \<open>delete_lambda_version\<close>, \<open>send_cleanup_alert\<close>).
  Everything it does goes through three boto3 clients, the clock and the
  \<open>datetime\<close> library.  The embedding keeps the control flow of the source and
  takes what lies outside the module as fields of an environment record:
  the responses of the clients, the clock reading, and the two library
  functions \<open>strptime\<close> and \<open>strftime\<close>.  What the handler does to the
  outside is recorded in the state: the client calls it issues, in order, and
  the logger calls it makes.
\<close>

subsection \<open>Exceptions\<close>

datatype error =
    TypeError
  | ValueError
  | OverflowError
  | ClientError string

subsection \<open>The datetime library\<close>

text \<open>
  A \<open>datetime\<close> is a wall-clock reading, counted in microseconds from
  0001-01-01T00:00:00, and an optional UTC offset (in microseconds): the value
  is naive when \<open>tzinfo\<close> is \<open>None\<close> and aware otherwise.  Python orders two
  naive values by their readings and two aware values by their UTC instants;
  ordering a naive against an aware value raises \<open>TypeError\<close>.
\<close>

record datetime =
  micros :: int
  tzinfo :: "int option"

definition naive :: "int \<Rightarrow> datetime" where
  "naive t = \<lparr>micros = t, tzinfo = None\<rparr>"

definition aware :: "int \<Rightarrow> int \<Rightarrow> datetime" where
  "aware t off = \<lparr>micros = t, tzinfo = Some off\<rparr>"

definition day :: int where
  "day = 86400000000"

text \<open>\<open>datetime.max\<close> is 9999-12-31T23:59:59.999999, ordinal day 3652059.\<close>

definition max_micros :: int where
  "max_micros = 3652059 * day"

text \<open>
  \<open>d - timedelta(days=n)\<close>: \<open>timedelta\<close> refuses more than 999999999 days and
  the subtraction refuses a result outside \<open>datetime.min .. datetime.max\<close>,
  both with \<open>OverflowError\<close>.  The offset is kept.
\<close>

definition minus_days :: "datetime \<Rightarrow> int \<Rightarrow> error + datetime" where
  "minus_days d n =
     (if 999999999 < abs n \<or> micros d - n * day < 0 \<or> max_micros \<le> micros d - n * day
      then Inl OverflowError
      else Inr (d\<lparr>micros := micros d - n * day\<rparr>))"

definition dt_gt :: "datetime \<Rightarrow> datetime \<Rightarrow> error + bool" where
  "dt_gt a b =
     (case tzinfo a of
        None \<Rightarrow> (case tzinfo b of
                   None \<Rightarrow> Inr (micros b < micros a)
                 | Some ob \<Rightarrow> Inl TypeError)
      | Some oa \<Rightarrow> (case tzinfo b of
                   None \<Rightarrow> Inl TypeError
                 | Some ob \<Rightarrow> Inr (micros b - ob < micros a - oa)))"

definition dt_le :: "datetime \<Rightarrow> datetime \<Rightarrow> error + bool" where
  "dt_le a b =
     (case tzinfo a of
        None \<Rightarrow> (case tzinfo b of
                   None \<Rightarrow> Inr (micros a \<le> micros b)
                 | Some ob \<Rightarrow> Inl TypeError)
      | Some oa \<Rightarrow> (case tzinfo b of
                   None \<Rightarrow> Inl TypeError
                 | Some ob \<Rightarrow> Inr (micros a - oa \<le> micros b - ob)))"

subsection \<open>Truthiness and \<open>str.split\<close>\<close>

fun truthy :: "'a list \<Rightarrow> bool" where
  "truthy [] = False"
| "truthy (x # xs) = True"

fun falsy :: "'a list \<Rightarrow> bool" where
  "falsy [] = True"
| "falsy (x # xs) = False"

text \<open>\<open>not EMAIL_SENDER\<close>: \<open>os.getenv\<close> gives \<open>None\<close> or a string.\<close>

fun falsy_opt :: "string option \<Rightarrow> bool" where
  "falsy_opt None = True"
| "falsy_opt (Some a) = falsy a"

text \<open>
  \<open>s.split(",")\<close> cuts at every comma and keeps empty pieces, so the result
  always has a first piece.
\<close>

fun split_comma :: "string \<Rightarrow> string list" where
  "split_comma [] = [[]]"
| "split_comma (c # cs) =
     (if c = CHR '','' then [] # split_comma cs
      else (case split_comma cs of
              [] \<Rightarrow> [[c]]
            | p # ps \<Rightarrow> (c # p) # ps))"

subsection \<open>The registry's answers\<close>

record version =
  Version :: string
  LastModified :: string

text \<open>
  A paginator hands out pages one after the other and may raise instead of
  the next page.
\<close>

datatype 'a pages =
    Exhausted
  | Page "'a list" "'a pages"
  | Failed error

subsection \<open>Environment and state\<close>

text \<open>
  \<open>EMAIL_RECIPIENTS_var\<close> is the environment variable as \<open>os.getenv\<close> reads it,
  before the module splits it.  \<open>now\<close> gives the readings of \<open>datetime.now()\<close>,
  naive values: one at line 54, one at line 55, and one at line 116 for each
  metric lookup, named by the version that is looked up.  The listings are
  those the registry gives when the run starts.  \<open>strptime\<close> stands for
  \<open>datetime.strptime(_, '%Y-%m-%dT%H:%M:%S.%f%z')\<close> and \<open>strftime\<close> for
  \<open>_.strftime('%Y-%m-%d')\<close>.  \<open>get_metric_statistics\<close> takes the function name,
  the resource, start and end, and answers with the \<open>Sum\<close> of each datapoint
  (a float in the source, a real number here; rounding is left out) or with
  the exception raised inside the \<open>try\<close> block.  \<open>delete_function\<close> and \<open>send_email\<close> answer with the
  exception they raise, if any.
\<close>

datatype reading =
    Line54
  | Line55
  | Line116 string string

record env =
  RETENTION_DAYS :: int
  ALERT_DAYS :: int
  EMAIL_RECIPIENTS_var :: "string option"
  EMAIL_SENDER :: "string option"
  now :: "reading \<Rightarrow> int"
  list_functions :: "string pages"
  list_versions_by_function :: "string \<Rightarrow> version pages"
  strptime :: "string \<Rightarrow> error + datetime"
  strftime :: "datetime \<Rightarrow> string"
  get_metric_statistics :: "string \<Rightarrow> string \<Rightarrow> datetime \<Rightarrow> datetime \<Rightarrow> error + real list"
  delete_function :: "string \<Rightarrow> string \<Rightarrow> error option"
  send_email :: "string \<Rightarrow> string list \<Rightarrow> string \<Rightarrow> string \<Rightarrow> error option"

datatype call =
    GetMetricStatistics string string datetime datetime
  | DeleteFunction string string
  | SendEmail string "string list" string string

datatype level = DEBUG | INFO | WARNING | ERROR

datatype message =
    Starting
  | RetentionSet int int
  | Processing string
  | Evaluating string datetime
  | Approaching string string
  | Skipping string string real
  | Deleting string string
  | Completed
  | CleanupError error
  | InvocationCount string string real
  | InvocationCountError string string error
  | Deleted string string
  | DeleteFailed string string error
  | MissingEmailConfig
  | EmailSent "string list"
  | EmailFailed error

type_synonym entry = "string \<times> string \<times> datetime"

record state =
  alert_versions :: "entry list"
  deleted_versions :: "entry list"
  calls :: "call list"
  log :: "(level \<times> message) list"

definition init_state :: state where
  "init_state = \<lparr>alert_versions = [], deleted_versions = [], calls = [], log = []\<rparr>"

definition logger :: "level \<Rightarrow> message \<Rightarrow> state \<Rightarrow> state" where
  "logger l m s = s\<lparr>log := log s @ [(l, m)]\<rparr>"

definition issue :: "call \<Rightarrow> state \<Rightarrow> state" where
  "issue c s = s\<lparr>calls := calls s @ [c]\<rparr>"

text \<open>Line 39: \<open>os.getenv("EMAIL_RECIPIENTS", "").split(",")\<close>.\<close>

definition EMAIL_RECIPIENTS :: "env \<Rightarrow> string list" where
  "EMAIL_RECIPIENTS e =
     split_comma (case EMAIL_RECIPIENTS_var e of None \<Rightarrow> [] | Some v \<Rightarrow> v)"

subsection \<open>The helpers\<close>

definition resource :: "string \<Rightarrow> string \<Rightarrow> string" where
  "resource function_name vid = function_name @ '':'' @ vid"

definition get_invocation_count :: "env \<Rightarrow> string \<Rightarrow> string \<Rightarrow> datetime \<Rightarrow> state \<Rightarrow> real \<times> state" where
  "get_invocation_count e function_name vid cutoff_date s =
     (case get_metric_statistics e function_name (resource function_name vid)
             cutoff_date (naive (now e (Line116 function_name vid))) of
        Inr datapoints \<Rightarrow>
          (sum_list datapoints,
           logger DEBUG (InvocationCount function_name vid (sum_list datapoints))
             (issue (GetMetricStatistics function_name (resource function_name vid)
                       cutoff_date (naive (now e (Line116 function_name vid)))) s))
      | Inl ex \<Rightarrow>
          (0,
           logger ERROR (InvocationCountError function_name vid ex)
             (issue (GetMetricStatistics function_name (resource function_name vid)
                       cutoff_date (naive (now e (Line116 function_name vid)))) s)))"

definition delete_lambda_version :: "env \<Rightarrow> string \<Rightarrow> string \<Rightarrow> state \<Rightarrow> state" where
  "delete_lambda_version e function_name vid s =
     (case delete_function e function_name vid of
        None \<Rightarrow> logger INFO (Deleted function_name vid)
                 (issue (DeleteFunction function_name vid) s)
      | Some ex \<Rightarrow> logger ERROR (DeleteFailed function_name vid ex)
                 (issue (DeleteFunction function_name vid) s))"

definition table_row :: "env \<Rightarrow> entry \<Rightarrow> string" where
  "table_row e r =
     (case r of (function_name, vid, last_modified) \<Rightarrow>
        ''<tr><td>'' @ function_name @ ''</td><td>'' @ vid @ ''</td><td>''
          @ strftime e last_modified @ ''</td></tr>'')"

definition table_head :: string where
  "table_head =
     ''<table border='' @ [CHR 0x27] @ ''1'' @ [CHR 0x27] @ '' cellpadding='' @ [CHR 0x27]
       @ ''5'' @ [CHR 0x27] @ '' cellspacing='' @ [CHR 0x27] @ ''0'' @ [CHR 0x27] @ ''>''
       @ ''<tr><th>Function Name</th><th>Version</th><th>Last Modified</th></tr>''"

definition message_body :: "env \<Rightarrow> entry list \<Rightarrow> entry list \<Rightarrow> string" where
  "message_body e alerts deleted =
     ''<html><body><h2>Lambda Cleanup Notification</h2>''
     @ (if truthy deleted
        then ''<h3>Deleted Lambda Versions</h3>'' @ table_head
               @ concat (map (table_row e) deleted) @ ''</table><br>''
        else [])
     @ (if truthy alerts
        then ''<h3>Lambda Versions Scheduled for Deletion Soon</h3>'' @ table_head
               @ concat (map (table_row e) alerts) @ ''</table><br>''
        else [])
     @ ''</body></html>''"

definition send_cleanup_alert :: "env \<Rightarrow> entry list \<Rightarrow> entry list \<Rightarrow> state \<Rightarrow> state" where
  "send_cleanup_alert e alerts deleted s =
     (if falsy (EMAIL_RECIPIENTS e) \<or> falsy_opt (EMAIL_SENDER e)
      then logger ERROR MissingEmailConfig s
      else (case EMAIL_SENDER e of
              None \<Rightarrow> logger ERROR MissingEmailConfig s
            | Some sender \<Rightarrow>
               (case send_email e sender (EMAIL_RECIPIENTS e)
                       ''Lambda Cleanup Notification'' (message_body e alerts deleted) of
                  None \<Rightarrow> logger INFO (EmailSent (EMAIL_RECIPIENTS e))
                           (issue (SendEmail sender (EMAIL_RECIPIENTS e)
                                     ''Lambda Cleanup Notification''
                                     (message_body e alerts deleted)) s)
                | Some ex \<Rightarrow> logger ERROR (EmailFailed ex)
                           (issue (SendEmail sender (EMAIL_RECIPIENTS e)
                                     ''Lambda Cleanup Notification''
                                     (message_body e alerts deleted)) s))))"

subsection \<open>The handler\<close>

text \<open>
  A step of the handler returns the exception that left it, if any, and the
  state reached.  The body of the innermost loop (lines 73 to 92) is
  \<open>for_version\<close>; the four loops around it follow.
\<close>

definition sentinel :: string where
  "sentinel = ''$LATEST''"

definition for_version ::
  "env \<Rightarrow> datetime \<Rightarrow> datetime \<Rightarrow> string \<Rightarrow> version \<Rightarrow> state \<Rightarrow> error option \<times> state" where
  "for_version e cutoff_date alert_date function_name v s =
     (if Version v = sentinel then (None, s)
      else (case strptime e (LastModified v) of
              Inl ex \<Rightarrow> (Some ex, s)
            | Inr last_modified \<Rightarrow>
               (case dt_gt last_modified cutoff_date of
                  Inl ex \<Rightarrow> (Some ex, logger DEBUG (Evaluating (Version v) last_modified) s)
                | Inr newer \<Rightarrow>
                   if newer
                   then (case dt_le last_modified alert_date of
                           Inl ex \<Rightarrow>
                             (Some ex, logger DEBUG (Evaluating (Version v) last_modified) s)
                         | Inr near \<Rightarrow>
                             if near
                             then (None,
                                   (logger INFO (Approaching (Version v) function_name)
                                      (logger DEBUG (Evaluating (Version v) last_modified) s))
                                   \<lparr>alert_versions :=
                                      alert_versions s
                                        @ [(function_name, Version v, last_modified)]\<rparr>)
                             else (None,
                                   logger DEBUG (Evaluating (Version v) last_modified) s))
                   else (case get_invocation_count e function_name (Version v) cutoff_date
                                (logger DEBUG (Evaluating (Version v) last_modified) s) of
                           (invocation_count, s') \<Rightarrow>
                             if 0 < invocation_count
                             then (None,
                                   logger INFO
                                     (Skipping (Version v) function_name invocation_count) s')
                             else (None,
                                   delete_lambda_version e function_name (Version v)
                                     ((logger WARNING (Deleting (Version v) function_name) s')
                                      \<lparr>deleted_versions :=
                                         deleted_versions s'
                                           @ [(function_name, Version v, last_modified)]\<rparr>))))))"

fun for_versions ::
  "env \<Rightarrow> datetime \<Rightarrow> datetime \<Rightarrow> string \<Rightarrow> version list \<Rightarrow> state \<Rightarrow> error option \<times> state" where
  "for_versions e cutoff_date alert_date function_name [] s = (None, s)"
| "for_versions e cutoff_date alert_date function_name (v # vs) s =
     (case for_version e cutoff_date alert_date function_name v s of
        (Some ex, s') \<Rightarrow> (Some ex, s')
      | (None, s') \<Rightarrow> for_versions e cutoff_date alert_date function_name vs s')"

fun for_version_pages ::
  "env \<Rightarrow> datetime \<Rightarrow> datetime \<Rightarrow> string \<Rightarrow> version pages \<Rightarrow> state \<Rightarrow> error option \<times> state" where
  "for_version_pages e cutoff_date alert_date function_name Exhausted s = (None, s)"
| "for_version_pages e cutoff_date alert_date function_name (Failed ex) s = (Some ex, s)"
| "for_version_pages e cutoff_date alert_date function_name (Page vs rest) s =
     (case for_versions e cutoff_date alert_date function_name vs s of
        (Some ex, s') \<Rightarrow> (Some ex, s')
      | (None, s') \<Rightarrow> for_version_pages e cutoff_date alert_date function_name rest s')"

fun for_functions ::
  "env \<Rightarrow> datetime \<Rightarrow> datetime \<Rightarrow> string list \<Rightarrow> state \<Rightarrow> error option \<times> state" where
  "for_functions e cutoff_date alert_date [] s = (None, s)"
| "for_functions e cutoff_date alert_date (function_name # fs) s =
     (case for_version_pages e cutoff_date alert_date function_name
             (list_versions_by_function e function_name)
             (logger INFO (Processing function_name) s) of
        (Some ex, s') \<Rightarrow> (Some ex, s')
      | (None, s') \<Rightarrow> for_functions e cutoff_date alert_date fs s')"

fun for_function_pages ::
  "env \<Rightarrow> datetime \<Rightarrow> datetime \<Rightarrow> string pages \<Rightarrow> state \<Rightarrow> error option \<times> state" where
  "for_function_pages e cutoff_date alert_date Exhausted s = (None, s)"
| "for_function_pages e cutoff_date alert_date (Failed ex) s = (Some ex, s)"
| "for_function_pages e cutoff_date alert_date (Page fs rest) s =
     (case for_functions e cutoff_date alert_date fs s of
        (Some ex, s') \<Rightarrow> (Some ex, s')
      | (None, s') \<Rightarrow> for_function_pages e cutoff_date alert_date rest s')"

text \<open>Lines 54 and 55.\<close>

definition cutoff_date :: "env \<Rightarrow> error + datetime" where
  "cutoff_date e = minus_days (naive (now e Line54)) (RETENTION_DAYS e)"

definition alert_date :: "env \<Rightarrow> error + datetime" where
  "alert_date e = minus_days (naive (now e Line55)) (RETENTION_DAYS e - ALERT_DAYS e)"

text \<open>Lines 94 and 95.\<close>

definition notify :: "env \<Rightarrow> state \<Rightarrow> state" where
  "notify e s =
     (if truthy (alert_versions s) \<or> truthy (deleted_versions s)
      then send_cleanup_alert e (alert_versions s) (deleted_versions s) s
      else s)"

text \<open>
  The \<open>try\<close> block, lines 54 to 97; lines 57 and 58 start both lists empty.
\<close>

definition cleanup :: "env \<Rightarrow> state \<Rightarrow> error option \<times> state" where
  "cleanup e s =
     (case cutoff_date e of
        Inl ex \<Rightarrow> (Some ex, s)
      | Inr c \<Rightarrow>
         (case alert_date e of
            Inl ex \<Rightarrow> (Some ex, s)
          | Inr a \<Rightarrow>
             (case for_function_pages e c a (list_functions e)
                     (s\<lparr>alert_versions := [], deleted_versions := []\<rparr>) of
                (Some ex, s') \<Rightarrow> (Some ex, s')
              | (None, s') \<Rightarrow> (None, logger INFO Completed (notify e s')))))"

text \<open>
  The handler: the two opening log lines, the \<open>try\<close> block, and the
  \<open>except\<close> clause that logs and raises again.  The event and the context are
  not read.
\<close>

definition started :: "env \<Rightarrow> state" where
  "started e =
     logger INFO (RetentionSet (RETENTION_DAYS e) (ALERT_DAYS e))
       (logger INFO Starting init_state)"

definition lambda_handler :: "env \<Rightarrow> error option \<times> state" where
  "lambda_handler e =
     (case cleanup e (started e) of
        (Some ex, s') \<Rightarrow> (Some ex, logger ERROR (CleanupError ex) s')
      | (None, s') \<Rightarrow> (None, s'))"

subsection \<open>The run as one sequence of steps\<close>

text \<open>
  The four nested loops visit, in order: a function (one log line), each
  version on each page of its versions, the next function, and so on; a
  paginator that raises ends the run where it stands.  \<open>items\<close> lays this
  sequence out and \<open>run_items\<close> walks it the way the loops do.  Both serve
  the proofs only.
\<close>

datatype item =
    Enter string
  | Visit string version
  | Abort error

fun step :: "env \<Rightarrow> datetime \<Rightarrow> datetime \<Rightarrow> item \<Rightarrow> state \<Rightarrow> error option \<times> state" where
  "step e c a (Enter function_name) s = (None, logger INFO (Processing function_name) s)"
| "step e c a (Visit function_name v) s = for_version e c a function_name v s"
| "step e c a (Abort ex) s = (Some ex, s)"

fun run_items :: "env \<Rightarrow> datetime \<Rightarrow> datetime \<Rightarrow> item list \<Rightarrow> state \<Rightarrow> error option \<times> state" where
  "run_items e c a [] s = (None, s)"
| "run_items e c a (x # xs) s =
     (case step e c a x s of
        (Some ex, s') \<Rightarrow> (Some ex, s')
      | (None, s') \<Rightarrow> run_items e c a xs s')"

fun version_items :: "string \<Rightarrow> version pages \<Rightarrow> item list" where
  "version_items function_name Exhausted = []"
| "version_items function_name (Failed ex) = [Abort ex]"
| "version_items function_name (Page vs rest) =
     map (Visit function_name) vs @ version_items function_name rest"

fun function_items :: "env \<Rightarrow> string list \<Rightarrow> item list" where
  "function_items e [] = []"
| "function_items e (function_name # fs) =
     Enter function_name
       # version_items function_name (list_versions_by_function e function_name)
       @ function_items e fs"

fun items :: "env \<Rightarrow> string pages \<Rightarrow> item list" where
  "items e Exhausted = []"
| "items e (Failed ex) = [Abort ex]"
| "items e (Page fs rest) = function_items e fs @ items e rest"

text \<open>What a listing holds, page after page, and the exception that ends it.\<close>

fun listed :: "'a pages \<Rightarrow> 'a list" where
  "listed Exhausted = []"
| "listed (Failed ex) = []"
| "listed (Page xs rest) = xs @ listed rest"

fun failure :: "'a pages \<Rightarrow> error option" where
  "failure Exhausted = None"
| "failure (Failed ex) = Some ex"
| "failure (Page xs rest) = failure rest"

text \<open>
  The outcome of the loop body on one version, read off the environment
  alone: the body's tests do not look at the state.
\<close>

datatype verdict =
    Sentinel
  | Raises error
  | Fresh
  | Alerted datetime
  | InUse
  | Removed datetime

definition invocations :: "env \<Rightarrow> datetime \<Rightarrow> string \<Rightarrow> string \<Rightarrow> real" where
  "invocations e c function_name vid =
     (case get_metric_statistics e function_name (resource function_name vid) c
             (naive (now e (Line116 function_name vid))) of
        Inr datapoints \<Rightarrow> sum_list datapoints
      | Inl ex \<Rightarrow> 0)"

definition verdict :: "env \<Rightarrow> datetime \<Rightarrow> datetime \<Rightarrow> string \<Rightarrow> version \<Rightarrow> verdict" where
  "verdict e c a function_name v =
     (if Version v = sentinel then Sentinel
      else (case strptime e (LastModified v) of
              Inl ex \<Rightarrow> Raises ex
            | Inr d \<Rightarrow>
               (case dt_gt d c of
                  Inl ex \<Rightarrow> Raises ex
                | Inr newer \<Rightarrow>
                   if newer
                   then (case dt_le d a of
                           Inl ex \<Rightarrow> Raises ex
                         | Inr near \<Rightarrow> if near then Alerted d else Fresh)
                   else if 0 < invocations e c function_name (Version v)
                        then InUse else Removed d)))"

text \<open>
  The versions a walk over a sequence meets, by function name and identifier,
  and those among them that it asks the registry to delete: the walk stops at
  the first step that raises.
\<close>

fun keys :: "item list \<Rightarrow> (string \<times> string) list" where
  "keys [] = []"
| "keys (Visit function_name v # xs) = (function_name, Version v) # keys xs"
| "keys (x # xs) = keys xs"

fun deletions :: "env \<Rightarrow> datetime \<Rightarrow> datetime \<Rightarrow> item list \<Rightarrow> (string \<times> string) list" where
  "deletions e c a [] = []"
| "deletions e c a (Enter function_name # xs) = deletions e c a xs"
| "deletions e c a (Abort ex # xs) = []"
| "deletions e c a (Visit function_name v # xs) =
     (case verdict e c a function_name v of
        Raises ex \<Rightarrow> []
      | Removed d \<Rightarrow> (function_name, Version v) # deletions e c a xs
      | Sentinel \<Rightarrow> deletions e c a xs
      | Fresh \<Rightarrow> deletions e c a xs
      | Alerted d \<Rightarrow> deletions e c a xs
      | InUse \<Rightarrow> deletions e c a xs)"

subsection \<open>What a run leaves behind\<close>

text \<open>
  Every call of \<open>send_cleanup_alert\<close> ends in exactly one of three log lines,
  and the log has these lines from nowhere else; an attempt to send is a
  \<open>SendEmail\<close> call.
\<close>

fun notification :: "level \<times> message \<Rightarrow> bool" where
  "notification (l, MissingEmailConfig) = True"
| "notification (l, EmailSent recipients) = True"
| "notification (l, EmailFailed ex) = True"
| "notification (l, m) = False"

definition notifier_invocations :: "state \<Rightarrow> nat" where
  "notifier_invocations s = length (filter notification (log s))"

fun is_send :: "call \<Rightarrow> bool" where
  "is_send (SendEmail sender recipients subject body) = True"
| "is_send k = False"

definition emails_attempted :: "state \<Rightarrow> nat" where
  "emails_attempted s = length (filter is_send (calls s))"

text \<open>
  The registry after a run: the versions whose deletion the run asked for, and
  the registry granted, are gone from every page; nothing else changes.
\<close>

fun without :: "('a \<Rightarrow> bool) \<Rightarrow> 'a pages \<Rightarrow> 'a pages" where
  "without gone Exhausted = Exhausted"
| "without gone (Failed ex) = Failed ex"
| "without gone (Page xs rest) = Page (filter (\<lambda>x. \<not> gone x) xs) (without gone rest)"

definition granted :: "env \<Rightarrow> state \<Rightarrow> string \<Rightarrow> version \<Rightarrow> bool" where
  "granted e s function_name v =
     (DeleteFunction function_name (Version v) \<in> set (calls s)
      \<and> delete_function e function_name (Version v) = None)"

definition after_run :: "env \<Rightarrow> state \<Rightarrow> env" where
  "after_run e s =
     e\<lparr>list_versions_by_function :=
         (\<lambda>function_name. without (granted e s function_name)
                             (list_versions_by_function e function_name))\<rparr>"

text \<open>The steps of a walk that are still there after a run.\<close>

fun survives :: "env \<Rightarrow> state \<Rightarrow> item \<Rightarrow> bool" where
  "survives e s (Visit function_name v) = (\<not> granted e s function_name v)"
| "survives e s x = True"

subsection \<open>Example environments\<close>

text \<open>
  One function with its mutable head and four numbered versions, thirty days
  of retention, seven days of alert lead, and the clock at
  2024-11-04T12:00:00.  Version 1 is 35 days old and unused, version 2 is 32
  days old and was invoked once, version 3 is 25 days old, version 4 is 10
  days old.  \<open>registry_strptime\<close> is the library's \<open>strptime\<close> on the
  timestamps of this registry: the format ends in \<open>%z\<close>, so each value is aware.
\<close>

definition registry_strptime :: "string \<Rightarrow> error + datetime" where
  "registry_strptime ts =
     (if ts = ''2024-09-30T12:00:00.000+0000'' then Inr (aware 63863294400000000 0)
      else if ts = ''2024-10-03T12:00:00.000+0000'' then Inr (aware 63863553600000000 0)
      else if ts = ''2024-10-10T12:00:00.000+0000'' then Inr (aware 63864158400000000 0)
      else if ts = ''2024-10-25T12:00:00.000+0000'' then Inr (aware 63865454400000000 0)
      else if ts = ''2024-11-04T12:00:00.000+0000'' then Inr (aware 63866318400000000 0)
      else Inl ValueError)"

definition registry_strftime :: "datetime \<Rightarrow> string" where
  "registry_strftime d =
     (if micros d = 63863294400000000 then ''2024-09-30''
      else if micros d = 63863553600000000 then ''2024-10-03''
      else if micros d = 63864158400000000 then ''2024-10-10''
      else if micros d = 63865454400000000 then ''2024-10-25''
      else ''2024-11-04'')"

definition head_version :: version where
  "head_version = \<lparr>Version = ''$LATEST'', LastModified = ''2024-11-04T12:00:00.000+0000''\<rparr>"

definition version_1 :: version where
  "version_1 = \<lparr>Version = ''1'', LastModified = ''2024-09-30T12:00:00.000+0000''\<rparr>"

definition version_2 :: version where
  "version_2 = \<lparr>Version = ''2'', LastModified = ''2024-10-03T12:00:00.000+0000''\<rparr>"

definition version_3 :: version where
  "version_3 = \<lparr>Version = ''3'', LastModified = ''2024-10-10T12:00:00.000+0000''\<rparr>"

definition version_4 :: version where
  "version_4 = \<lparr>Version = ''4'', LastModified = ''2024-10-25T12:00:00.000+0000''\<rparr>"

definition registry_of :: "version list \<Rightarrow> env" where
  "registry_of vs =
     \<lparr>RETENTION_DAYS = 30,
      ALERT_DAYS = 7,
      EMAIL_RECIPIENTS_var = Some ''user@example.com,admin@example.com'',
      EMAIL_SENDER = Some ''notify@example.com'',
      now = (\<lambda>r. 63866318400000000),
      list_functions = Page [''janitor_test''] Exhausted,
      list_versions_by_function =
        (\<lambda>function_name. if function_name = ''janitor_test'' then Page vs Exhausted
                          else Exhausted),
      strptime = registry_strptime,
      strftime = registry_strftime,
      get_metric_statistics =
        (\<lambda>function_name res start end.
           if res = ''janitor_test:2'' then Inr [1] else Inr []),
      delete_function = (\<lambda>function_name vid. None),
      send_email = (\<lambda>sender recipients subject body. None)\<rparr>"

text \<open>
  Lines 79 to 92 run to their end only on a timestamp that can be ordered
  against the naive cutoff.  \<open>offset_dropped\<close> reads the same timestamps and
  forgets the offset.  It is not the library's \<open>strptime\<close>, which never gives
  a naive value for a format that ends in \<open>%z\<close>: \<open>comparable_registry\<close> is an
  environment the program does not meet, kept to show what the theorems about
  every environment say beyond line 79.
\<close>

definition offset_dropped :: "string \<Rightarrow> error + datetime" where
  "offset_dropped ts =
     (case registry_strptime ts of
        Inl ex \<Rightarrow> Inl ex
      | Inr d \<Rightarrow> Inr (d\<lparr>tzinfo := None\<rparr>))"

definition whole_registry :: env where
  "whole_registry = registry_of [head_version, version_1, version_2, version_3, version_4]"

definition comparable_registry :: env where
  "comparable_registry = whole_registry\<lparr>strptime := offset_dropped\<rparr>"

text \<open>
  The registry as it is, with a metrics store that refuses every request, and
  with a registry that refuses every delete request.
\<close>

definition metrics_down :: env where
  "metrics_down =
     whole_registry
       \<lparr>get_metric_statistics :=
          (\<lambda>function_name res start end. Inl (ClientError ''Throttling''))\<rparr>"

definition deletes_refused :: env where
  "deletes_refused =
     whole_registry
       \<lparr>delete_function := (\<lambda>function_name vid. Some (ClientError ''AccessDenied''))\<rparr>"

text \<open>The registry as it is, with \<open>EMAIL_RECIPIENTS\<close> unset and the sender set.\<close>

definition no_recipients :: env where
  "no_recipients = whole_registry\<lparr>EMAIL_RECIPIENTS_var := None\<rparr>"

section \<open>The loop body\<close>

lemma for_version_raise:
  "fst (for_version e c a fn v s) =
     (case verdict e c a fn v of Raises ex \<Rightarrow> Some ex | _ \<Rightarrow> None)"
  by (auto simp add: for_version_def verdict_def invocations_def get_invocation_count_def
      split: sum.split prod.split)

lemma for_version_deleted:
  "deleted_versions (snd (for_version e c a fn v s)) =
     deleted_versions s
       @ (case verdict e c a fn v of Removed d \<Rightarrow> [(fn, Version v, d)] | _ \<Rightarrow> [])"
  by (auto simp add: for_version_def verdict_def invocations_def get_invocation_count_def
      delete_lambda_version_def logger_def issue_def
      split: sum.split prod.split option.split)

lemma for_version_alerts:
  "alert_versions (snd (for_version e c a fn v s)) =
     alert_versions s
       @ (case verdict e c a fn v of Alerted d \<Rightarrow> [(fn, Version v, d)] | _ \<Rightarrow> [])"
  by (auto simp add: for_version_def verdict_def invocations_def get_invocation_count_def
      delete_lambda_version_def logger_def issue_def
      split: sum.split prod.split option.split)

lemma for_version_calls:
  "calls (snd (for_version e c a fn v s)) =
     calls s
       @ (case verdict e c a fn v of
            Removed d \<Rightarrow>
              [GetMetricStatistics fn (resource fn (Version v)) c
                 (naive (now e (Line116 fn (Version v)))),
               DeleteFunction fn (Version v)]
          | InUse \<Rightarrow>
              [GetMetricStatistics fn (resource fn (Version v)) c
                 (naive (now e (Line116 fn (Version v))))]
          | _ \<Rightarrow> [])"
  by (auto simp add: for_version_def verdict_def invocations_def get_invocation_count_def
      delete_lambda_version_def logger_def issue_def
      split: sum.split prod.split option.split)

lemma for_version_notifications:
  "filter notification (log (snd (for_version e c a fn v s))) = filter notification (log s)"
  by (auto simp add: for_version_def get_invocation_count_def
      delete_lambda_version_def logger_def issue_def
      split: sum.split prod.split option.split)

lemma for_version_evaluating:
  "(l, Evaluating vid d) \<in> set (log (snd (for_version e c a fn v s))) \<Longrightarrow>
     (l, Evaluating vid d) \<in> set (log s) \<or> vid \<noteq> sentinel"
  by (auto simp add: for_version_def get_invocation_count_def
      delete_lambda_version_def logger_def issue_def
      split: sum.splits prod.splits option.splits if_splits)

lemma verdict_Removed:
  "verdict e c a fn v = Removed d \<Longrightarrow>
     Version v \<noteq> sentinel \<and> strptime e (LastModified v) = Inr d \<and> dt_gt d c = Inr False
     \<and> invocations e c fn (Version v) \<le> 0"
  by (auto simp add: verdict_def split: sum.splits if_splits)

lemma verdict_InUse:
  "verdict e c a fn v = InUse \<Longrightarrow>
     Version v \<noteq> sentinel \<and> (\<exists>d. strptime e (LastModified v) = Inr d \<and> dt_gt d c = Inr False)
     \<and> 0 < invocations e c fn (Version v)"
  by (auto simp add: verdict_def split: sum.splits if_splits)

lemma verdict_Alerted:
  "verdict e c a fn v = Alerted d \<Longrightarrow>
     Version v \<noteq> sentinel \<and> strptime e (LastModified v) = Inr d \<and> dt_gt d c = Inr True
     \<and> dt_le d a = Inr True"
  by (auto simp add: verdict_def split: sum.splits if_splits)

section \<open>The loops walk the sequence\<close>

lemma run_items_append:
  "run_items e c a (xs @ ys) s =
     (case run_items e c a xs s of
        (Some ex, s') \<Rightarrow> (Some ex, s')
      | (None, s') \<Rightarrow> run_items e c a ys s')"
  by (induction xs arbitrary: s) (auto split: prod.splits option.splits)

lemma for_versions_items:
  "for_versions e c a fn vs s = run_items e c a (map (Visit fn) vs) s"
  by (induction vs arbitrary: s) (auto split: prod.splits option.splits)

lemma for_version_pages_items:
  "for_version_pages e c a fn p s = run_items e c a (version_items fn p) s"
  by (induction p arbitrary: s)
     (auto simp: run_items_append for_versions_items split: prod.splits option.splits)

lemma for_functions_items:
  "for_functions e c a fs s = run_items e c a (function_items e fs) s"
  by (induction fs arbitrary: s)
     (auto simp: run_items_append for_version_pages_items split: prod.splits option.splits)

lemma for_function_pages_items:
  "for_function_pages e c a p s = run_items e c a (items e p) s"
  by (induction p arbitrary: s)
     (auto simp: run_items_append for_functions_items split: prod.splits option.splits)

lemma version_items_listed:
  "Visit fn v \<in> set (version_items fn' p) \<Longrightarrow> fn = fn' \<and> v \<in> set (listed p)"
  by (induction p) auto

lemma function_items_listed:
  "Visit fn v \<in> set (function_items e fs) \<Longrightarrow>
     fn \<in> set fs \<and> v \<in> set (listed (list_versions_by_function e fn))"
  by (induction fs) (auto dest: version_items_listed)

lemma items_listed:
  "Visit fn v \<in> set (items e p) \<Longrightarrow>
     fn \<in> set (listed p) \<and> v \<in> set (listed (list_versions_by_function e fn))"
  by (induction p) (auto dest: function_items_listed)

section \<open>One step, then the rest\<close>

lemma run_items_Cons:
  "run_items e c a (x # xs) s =
     (case fst (step e c a x s) of
        None \<Rightarrow> run_items e c a xs (snd (step e c a x s))
      | Some ex \<Rightarrow> (Some ex, snd (step e c a x s)))"
  by (simp split: prod.split option.split)

lemma step_deleted:
  "deleted_versions (snd (step e c a x s)) =
     deleted_versions s
       @ (case x of
            Visit fn v \<Rightarrow>
              (case verdict e c a fn v of Removed d \<Rightarrow> [(fn, Version v, d)] | _ \<Rightarrow> [])
          | _ \<Rightarrow> [])"
  by (cases x) (simp_all add: for_version_deleted logger_def)

lemma step_alerts:
  "alert_versions (snd (step e c a x s)) =
     alert_versions s
       @ (case x of
            Visit fn v \<Rightarrow>
              (case verdict e c a fn v of Alerted d \<Rightarrow> [(fn, Version v, d)] | _ \<Rightarrow> [])
          | _ \<Rightarrow> [])"
  by (cases x) (simp_all add: for_version_alerts logger_def)

lemma step_calls:
  "calls (snd (step e c a x s)) =
     calls s
       @ (case x of
            Visit fn v \<Rightarrow>
              (case verdict e c a fn v of
                 Removed d \<Rightarrow>
                   [GetMetricStatistics fn (resource fn (Version v)) c
                 (naive (now e (Line116 fn (Version v)))),
                    DeleteFunction fn (Version v)]
               | InUse \<Rightarrow>
              [GetMetricStatistics fn (resource fn (Version v)) c
                 (naive (now e (Line116 fn (Version v))))]
               | _ \<Rightarrow> [])
          | _ \<Rightarrow> [])"
  by (cases x) (simp_all add: for_version_calls logger_def)

lemma step_raise:
  "fst (step e c a x s) =
     (case x of
        Enter fn \<Rightarrow> None
      | Abort ex \<Rightarrow> Some ex
      | Visit fn v \<Rightarrow> (case verdict e c a fn v of Raises ex \<Rightarrow> Some ex | _ \<Rightarrow> None))"
  by (cases x) (simp_all add: for_version_raise)

lemma step_notifications:
  "filter notification (log (snd (step e c a x s))) = filter notification (log s)"
  by (cases x) (simp_all add: for_version_notifications logger_def)

lemma step_evaluating:
  "(l, Evaluating vid d) \<in> set (log (snd (step e c a x s))) \<Longrightarrow>
     (l, Evaluating vid d) \<in> set (log s) \<or> vid \<noteq> sentinel"
  by (cases x) (auto simp add: logger_def dest: for_version_evaluating)

section \<open>A whole walk\<close>

lemma run_items_trace:
  assumes "\<And>x s. P (snd (step e c a x s)) \<Longrightarrow> P s \<or> Q x"
  shows "P (snd (run_items e c a xs s)) \<Longrightarrow> P s \<or> (\<exists>x \<in> set xs. Q x)"
proof (induction xs arbitrary: s)
  case Nil
  then show ?case by simp
next
  case (Cons x xs)
  show ?case
  proof (cases "fst (step e c a x s)")
    case None
    with Cons.prems have "P (snd (run_items e c a xs (snd (step e c a x s))))"
      by (simp only: run_items_Cons option.case)
    from Cons.IH [OF this] assms [of x s] show ?thesis
      by auto
  next
    case (Some ex)
    with Cons.prems have "P (snd (step e c a x s))"
      by (simp only: run_items_Cons option.case snd_conv)
    with assms [of x s] show ?thesis
      by auto
  qed
qed

lemma run_items_kept:
  assumes "\<And>x s. f (snd (step e c a x s)) = f s"
  shows "f (snd (run_items e c a xs s)) = f s"
proof (induction xs arbitrary: s)
  case Nil
  then show ?case by simp
next
  case (Cons x xs)
  from Cons.IH [of "snd (step e c a x s)"] assms [of x s] show ?case
    by (cases "fst (step e c a x s)") (simp_all only: run_items_Cons option.case snd_conv)
qed

lemma step_deleted_mem:
  "entry \<in> set (deleted_versions (snd (step e c a x s))) \<Longrightarrow>
     entry \<in> set (deleted_versions s)
     \<or> (\<exists>fn v d. x = Visit fn v \<and> entry = (fn, Version v, d) \<and> verdict e c a fn v = Removed d)"
proof (cases x)
  case (Visit fn v)
  assume "entry \<in> set (deleted_versions (snd (step e c a x s)))"
  with Visit show ?thesis
    by (cases "verdict e c a fn v") (auto simp add: for_version_deleted)
qed (simp_all add: logger_def)

lemma step_alerts_mem:
  "entry \<in> set (alert_versions (snd (step e c a x s))) \<Longrightarrow>
     entry \<in> set (alert_versions s)
     \<or> (\<exists>fn v d. x = Visit fn v \<and> entry = (fn, Version v, d) \<and> verdict e c a fn v = Alerted d)"
proof (cases x)
  case (Visit fn v)
  assume "entry \<in> set (alert_versions (snd (step e c a x s)))"
  with Visit show ?thesis
    by (cases "verdict e c a fn v") (auto simp add: for_version_alerts)
qed (simp_all add: logger_def)

lemma step_metrics_mem:
  "GetMetricStatistics fn r t1 t2 \<in> set (calls (snd (step e c a x s))) \<Longrightarrow>
     GetMetricStatistics fn r t1 t2 \<in> set (calls s)
     \<or> (\<exists>v. x = Visit fn v \<and> Version v \<noteq> sentinel \<and> r = resource fn (Version v))"
proof (cases x)
  case (Visit fn' v)
  assume "GetMetricStatistics fn r t1 t2 \<in> set (calls (snd (step e c a x s)))"
  with Visit show ?thesis
    by (cases "verdict e c a fn' v")
       (auto simp add: for_version_calls dest: verdict_Removed verdict_InUse)
qed (simp_all add: logger_def)

lemma run_items_deleted:
  assumes "entry \<in> set (deleted_versions (snd (run_items e c a xs s)))"
  shows "entry \<in> set (deleted_versions s)
     \<or> (\<exists>fn v d. entry = (fn, Version v, d) \<and> Visit fn v \<in> set xs
                  \<and> verdict e c a fn v = Removed d)"
proof -
  let ?P = "\<lambda>s. entry \<in> set (deleted_versions s)"
  let ?Q = "\<lambda>x. \<exists>fn v d. x = Visit fn v \<and> entry = (fn, Version v, d)
                  \<and> verdict e c a fn v = Removed d"
  have "\<And>x s. ?P (snd (step e c a x s)) \<Longrightarrow> ?P s \<or> ?Q x"
    by (rule step_deleted_mem)
  from run_items_trace [where P = ?P and Q = ?Q, OF this assms] show ?thesis
    by auto
qed

lemma run_items_alerts:
  assumes "entry \<in> set (alert_versions (snd (run_items e c a xs s)))"
  shows "entry \<in> set (alert_versions s)
     \<or> (\<exists>fn v d. entry = (fn, Version v, d) \<and> Visit fn v \<in> set xs
                  \<and> verdict e c a fn v = Alerted d)"
proof -
  let ?P = "\<lambda>s. entry \<in> set (alert_versions s)"
  let ?Q = "\<lambda>x. \<exists>fn v d. x = Visit fn v \<and> entry = (fn, Version v, d)
                  \<and> verdict e c a fn v = Alerted d"
  have "\<And>x s. ?P (snd (step e c a x s)) \<Longrightarrow> ?P s \<or> ?Q x"
    by (rule step_alerts_mem)
  from run_items_trace [where P = ?P and Q = ?Q, OF this assms] show ?thesis
    by auto
qed

lemma run_items_metrics:
  assumes "GetMetricStatistics fn r t1 t2 \<in> set (calls (snd (run_items e c a xs s)))"
  shows "GetMetricStatistics fn r t1 t2 \<in> set (calls s)
     \<or> (\<exists>v. Visit fn v \<in> set xs \<and> Version v \<noteq> sentinel \<and> r = resource fn (Version v))"
proof -
  let ?P = "\<lambda>s. GetMetricStatistics fn r t1 t2 \<in> set (calls s)"
  let ?Q = "\<lambda>x. \<exists>v. x = Visit fn v \<and> Version v \<noteq> sentinel \<and> r = resource fn (Version v)"
  have "\<And>x s. ?P (snd (step e c a x s)) \<Longrightarrow> ?P s \<or> ?Q x"
    by (rule step_metrics_mem)
  from run_items_trace [where P = ?P and Q = ?Q, OF this assms] show ?thesis
    by auto
qed

lemma run_items_evaluating:
  assumes "(l, Evaluating vid d) \<in> set (log (snd (run_items e c a xs s)))"
  shows "(l, Evaluating vid d) \<in> set (log s) \<or> vid \<noteq> sentinel"
proof -
  let ?P = "\<lambda>s. (l, Evaluating vid d) \<in> set (log s)"
  let ?Q = "\<lambda>x::item. vid \<noteq> sentinel"
  have "\<And>x s. ?P (snd (step e c a x s)) \<Longrightarrow> ?P s \<or> ?Q x"
    by (rule step_evaluating)
  from run_items_trace [where P = ?P and Q = ?Q, OF this assms] show ?thesis
    by auto
qed

lemma run_items_notifications:
  "filter notification (log (snd (run_items e c a xs s))) = filter notification (log s)"
  by (rule run_items_kept) (rule step_notifications)

lemma step_sends:
  "filter is_send (calls (snd (step e c a x s))) = filter is_send (calls s)"
proof (cases x)
  case (Visit fn v)
  then show ?thesis
    by (cases "verdict e c a fn v") (simp_all add: for_version_calls)
qed (simp_all add: logger_def)

lemma run_items_sends:
  "filter is_send (calls (snd (run_items e c a xs s))) = filter is_send (calls s)"
  by (rule run_items_kept) (rule step_sends)

lemma deletions_subset_keys: "set (deletions e c a xs) \<subseteq> set (keys xs)"
  by (induction xs rule: keys.induct) (auto split: verdict.splits)

lemma deletions_Removed:
  "(fn, vid) \<in> set (deletions e c a xs) \<Longrightarrow>
     \<exists>v d. Visit fn v \<in> set xs \<and> Version v = vid \<and> verdict e c a fn v = Removed d"
  by (induction xs rule: keys.induct) (auto split: verdict.splits)

lemma run_items_deletes:
  "DeleteFunction fn vid \<in> set (calls (snd (run_items e c a xs s))) \<longleftrightarrow>
     DeleteFunction fn vid \<in> set (calls s) \<or> (fn, vid) \<in> set (deletions e c a xs)"
proof (induction xs arbitrary: s)
  case Nil
  then show ?case by simp
next
  case (Cons x xs)
  show ?case
  proof (cases x)
    case (Enter fn')
    with Cons.IH [of "snd (step e c a x s)"] show ?thesis
      by (simp add: logger_def)
  next
    case (Abort ex)
    then show ?thesis by simp
  next
    case (Visit fn' v)
    have r: "fst (step e c a x s) = (case verdict e c a fn' v of Raises ex \<Rightarrow> Some ex | _ \<Rightarrow> None)"
      using Visit by (simp add: for_version_raise)
    from Visit Cons.IH [of "snd (step e c a x s)"] r show ?thesis
      by (cases "verdict e c a fn' v")
         (auto simp only: run_items_Cons option.case snd_conv step_calls item.case
            verdict.case deletions.simps set_append set_simps call.inject Un_iff
            insert_iff empty_iff append_Nil2 prod.inject call.distinct)
  qed
qed

section \<open>The handler as a walk\<close>

lemma started_fields:
  "alert_versions (started e) = []" "deleted_versions (started e) = []"
  "calls (started e) = []"
  "log (started e) = [(INFO, Starting), (INFO, RetentionSet (RETENTION_DAYS e) (ALERT_DAYS e))]"
  by (simp_all add: started_def logger_def init_state_def)

lemma started_reset:
  "(started e)\<lparr>alert_versions := [], deleted_versions := []\<rparr> = started e"
  by (simp add: started_def logger_def init_state_def)

lemma logger_fields:
  "alert_versions (logger l m s) = alert_versions s"
  "deleted_versions (logger l m s) = deleted_versions s"
  "calls (logger l m s) = calls s"
  "log (logger l m s) = log s @ [(l, m)]"
  by (simp_all add: logger_def)

lemma send_cleanup_alert_lists:
  "alert_versions (send_cleanup_alert e x y s) = alert_versions s"
  "deleted_versions (send_cleanup_alert e x y s) = deleted_versions s"
  by (simp_all add: send_cleanup_alert_def logger_def issue_def split: option.split)

lemma notify_lists:
  "alert_versions (notify e s) = alert_versions s"
  "deleted_versions (notify e s) = deleted_versions s"
  by (simp_all add: notify_def send_cleanup_alert_lists)

lemma notify_calls:
  "\<not> is_send k \<Longrightarrow> k \<in> set (calls (notify e s)) \<longleftrightarrow> k \<in> set (calls s)"
  by (auto simp add: notify_def send_cleanup_alert_def logger_def issue_def split: option.splits)

lemma notify_evaluating:
  "(l, Evaluating vid d) \<in> set (log (notify e s)) \<longleftrightarrow> (l, Evaluating vid d) \<in> set (log s)"
  by (auto simp add: notify_def send_cleanup_alert_def logger_def issue_def split: option.splits)

lemma lambda_handler_cases [case_names overflow raised completed]:
  obtains
    (overflow) ex where
      "lambda_handler e = (Some ex, logger ERROR (CleanupError ex) (started e))"
      and "cutoff_date e = Inl ex \<or> alert_date e = Inl ex"
  | (raised) c a ex s' where
      "cutoff_date e = Inr c" and "alert_date e = Inr a"
      and "run_items e c a (items e (list_functions e)) (started e) = (Some ex, s')"
      and "lambda_handler e = (Some ex, logger ERROR (CleanupError ex) s')"
  | (completed) c a s' where
      "cutoff_date e = Inr c" and "alert_date e = Inr a"
      and "run_items e c a (items e (list_functions e)) (started e) = (None, s')"
      and "lambda_handler e = (None, logger INFO Completed (notify e s'))"
proof (cases "cutoff_date e")
  case (Inl ex)
  then have "lambda_handler e = (Some ex, logger ERROR (CleanupError ex) (started e))"
    by (simp add: lambda_handler_def cleanup_def)
  with Inl show ?thesis by (auto intro: overflow)
next
  case c: (Inr c)
  show ?thesis
  proof (cases "alert_date e")
    case (Inl ex)
    with c have "lambda_handler e = (Some ex, logger ERROR (CleanupError ex) (started e))"
      by (simp add: lambda_handler_def cleanup_def)
    with Inl show ?thesis by (auto intro: overflow)
  next
    case a: (Inr a)
    obtain r s' where run: "run_items e c a (items e (list_functions e)) (started e) = (r, s')"
      by (cases "run_items e c a (items e (list_functions e)) (started e)")
    show ?thesis
    proof (cases r)
      case None
      with c a run have "lambda_handler e = (None, logger INFO Completed (notify e s'))"
        by (simp add: lambda_handler_def cleanup_def started_reset for_function_pages_items)
      with c a run None show ?thesis by (auto intro: completed)
    next
      case (Some ex)
      with c a run have "lambda_handler e = (Some ex, logger ERROR (CleanupError ex) s')"
        by (simp add: lambda_handler_def cleanup_def started_reset for_function_pages_items)
      with c a run Some show ?thesis by (auto intro: raised)
    qed
  qed
qed

lemma handler_deleted:
  assumes "entry \<in> set (deleted_versions (snd (lambda_handler e)))"
  shows "\<exists>c a fn v d. cutoff_date e = Inr c \<and> alert_date e = Inr a \<and> entry = (fn, Version v, d)
           \<and> Visit fn v \<in> set (items e (list_functions e)) \<and> verdict e c a fn v = Removed d"
proof (cases e rule: lambda_handler_cases)
  case (overflow ex)
  with assms show ?thesis by (simp add: logger_fields started_fields)
next
  case (raised c a ex s')
  with assms have "entry \<in> set (deleted_versions (snd (run_items e c a (items e (list_functions e)) (started e))))"
    by (simp add: logger_fields)
  from run_items_deleted [OF this] raised(1,2) show ?thesis
    by (auto simp add: started_fields)
next
  case (completed c a s')
  with assms have "entry \<in> set (deleted_versions (snd (run_items e c a (items e (list_functions e)) (started e))))"
    by (simp add: logger_fields notify_lists)
  from run_items_deleted [OF this] completed(1,2) show ?thesis
    by (auto simp add: started_fields)
qed

lemma handler_alerts:
  assumes "entry \<in> set (alert_versions (snd (lambda_handler e)))"
  shows "\<exists>c a fn v d. cutoff_date e = Inr c \<and> alert_date e = Inr a \<and> entry = (fn, Version v, d)
           \<and> Visit fn v \<in> set (items e (list_functions e)) \<and> verdict e c a fn v = Alerted d"
proof (cases e rule: lambda_handler_cases)
  case (overflow ex)
  with assms show ?thesis by (simp add: logger_fields started_fields)
next
  case (raised c a ex s')
  with assms have "entry \<in> set (alert_versions (snd (run_items e c a (items e (list_functions e)) (started e))))"
    by (simp add: logger_fields)
  from run_items_alerts [OF this] raised(1,2) show ?thesis
    by (auto simp add: started_fields)
next
  case (completed c a s')
  with assms have "entry \<in> set (alert_versions (snd (run_items e c a (items e (list_functions e)) (started e))))"
    by (simp add: logger_fields notify_lists)
  from run_items_alerts [OF this] completed(1,2) show ?thesis
    by (auto simp add: started_fields)
qed

lemma handler_deletes:
  "DeleteFunction fn vid \<in> set (calls (snd (lambda_handler e))) \<longleftrightarrow>
     (\<exists>c a. cutoff_date e = Inr c \<and> alert_date e = Inr a
            \<and> (fn, vid) \<in> set (deletions e c a (items e (list_functions e))))"
proof (cases e rule: lambda_handler_cases)
  case (overflow ex)
  then show ?thesis
    by (auto simp add: logger_fields started_fields)
next
  case (raised c a ex s')
  have "s' = snd (run_items e c a (items e (list_functions e)) (started e))"
    using raised(3) by simp
  with raised(1,2,4) show ?thesis
    by (simp add: logger_fields run_items_deletes started_fields)
next
  case (completed c a s')
  have "s' = snd (run_items e c a (items e (list_functions e)) (started e))"
    using completed(3) by simp
  with completed(1,2,4) show ?thesis
    by (simp add: logger_fields notify_calls run_items_deletes started_fields)
qed

lemma handler_metrics:
  assumes "GetMetricStatistics fn r t1 t2 \<in> set (calls (snd (lambda_handler e)))"
  shows "\<exists>v. Visit fn v \<in> set (items e (list_functions e)) \<and> Version v \<noteq> sentinel
              \<and> r = resource fn (Version v)"
proof (cases e rule: lambda_handler_cases)
  case (overflow ex)
  with assms show ?thesis by (simp add: logger_fields started_fields)
next
  case (raised c a ex s')
  with assms have "GetMetricStatistics fn r t1 t2 \<in> set (calls (snd (run_items e c a (items e (list_functions e)) (started e))))"
    by (simp add: logger_fields)
  from run_items_metrics [OF this] show ?thesis
    by (simp add: started_fields)
next
  case (completed c a s')
  with assms have "GetMetricStatistics fn r t1 t2 \<in> set (calls (snd (run_items e c a (items e (list_functions e)) (started e))))"
    by (simp add: logger_fields notify_calls)
  from run_items_metrics [OF this] show ?thesis
    by (simp add: started_fields)
qed

lemma handler_evaluating:
  assumes "(l, Evaluating vid d) \<in> set (log (snd (lambda_handler e)))"
  shows "vid \<noteq> sentinel"
proof (cases e rule: lambda_handler_cases)
  case (overflow ex)
  with assms show ?thesis by (auto simp add: logger_fields started_fields)
next
  case (raised c a ex s')
  with assms have "(l, Evaluating vid d) \<in> set (log (snd (run_items e c a (items e (list_functions e)) (started e))))"
    by (auto simp add: logger_fields)
  from run_items_evaluating [OF this] show ?thesis
    by (auto simp add: started_fields)
next
  case (completed c a s')
  with assms have "(l, Evaluating vid d) \<in> set (log (snd (run_items e c a (items e (list_functions e)) (started e))))"
    by (auto simp add: logger_fields notify_evaluating)
  from run_items_evaluating [OF this] show ?thesis
    by (auto simp add: started_fields)
qed

lemma resource_inject: "resource fn v = resource fn v' \<longleftrightarrow> v = v'"
  by (simp add: resource_def)

lemma version_items_Visit:
  "Visit fn v \<in> set (version_items fn' p) \<longleftrightarrow> fn = fn' \<and> v \<in> set (listed p)"
  by (induction p) auto

lemma function_items_Visit:
  "Visit fn v \<in> set (function_items e fs) \<longleftrightarrow>
     fn \<in> set fs \<and> v \<in> set (listed (list_versions_by_function e fn))"
  by (induction fs) (auto simp add: version_items_Visit)

lemma items_Visit:
  "Visit fn v \<in> set (items e p) \<longleftrightarrow>
     fn \<in> set (listed p) \<and> v \<in> set (listed (list_versions_by_function e fn))"
  by (induction p) (auto simp add: function_items_Visit)

lemma version_items_Abort:
  "Abort ex \<in> set (version_items fn p) \<longleftrightarrow> failure p = Some ex"
  by (induction p) auto

lemma function_items_Abort:
  "Abort ex \<in> set (function_items e fs) \<longleftrightarrow>
     (\<exists>fn \<in> set fs. failure (list_versions_by_function e fn) = Some ex)"
  by (induction fs) (auto simp add: version_items_Abort)

lemma items_Abort:
  "Abort ex \<in> set (items e p) \<longleftrightarrow>
     failure p = Some ex
     \<or> (\<exists>fn \<in> set (listed p). failure (list_versions_by_function e fn) = Some ex)"
  by (induction p) (auto simp add: function_items_Abort)

lemma cutoff_date_naive: "cutoff_date e = Inr c \<Longrightarrow> tzinfo c = None"
  by (auto simp add: cutoff_date_def minus_days_def naive_def split: if_splits)

lemma alert_date_naive: "alert_date e = Inr a \<Longrightarrow> tzinfo a = None"
  by (auto simp add: alert_date_def minus_days_def naive_def split: if_splits)

lemma verdict_aware:
  "Version v \<noteq> sentinel \<Longrightarrow> strptime e (LastModified v) = Inr d \<Longrightarrow> tzinfo d \<noteq> None \<Longrightarrow>
     tzinfo c = None \<Longrightarrow> verdict e c a fn v = Raises TypeError"
  by (auto simp add: verdict_def dt_gt_def)

lemma verdict_Sentinel: "Version v = sentinel \<Longrightarrow> verdict e c a fn v = Sentinel"
  by (simp add: verdict_def)

lemma run_items_all_raise:
  assumes "\<forall>x \<in> set xs.
             case x of
               Enter fn \<Rightarrow> True
             | Abort ex \<Rightarrow> False
             | Visit fn v \<Rightarrow> verdict e c a fn v = Sentinel \<or> verdict e c a fn v = Raises TypeError"
  shows "alert_versions (snd (run_items e c a xs s)) = alert_versions s
         \<and> deleted_versions (snd (run_items e c a xs s)) = deleted_versions s
         \<and> calls (snd (run_items e c a xs s)) = calls s
         \<and> fst (run_items e c a xs s) =
             (if \<exists>fn v. Visit fn v \<in> set xs \<and> verdict e c a fn v = Raises TypeError
              then Some TypeError else None)"
  using assms
proof (induction xs arbitrary: s)
  case Nil
  then show ?case by simp
next
  case (Cons x xs)
  then have rest: "\<forall>x \<in> set xs.
             case x of
               Enter fn \<Rightarrow> True
             | Abort ex \<Rightarrow> False
             | Visit fn v \<Rightarrow> verdict e c a fn v = Sentinel \<or> verdict e c a fn v = Raises TypeError"
    by simp
  note IH = Cons.IH [OF rest, of "snd (step e c a x s)"]
  show ?case
  proof (cases x)
    case (Enter fn)
    with IH show ?thesis
      by (simp add: logger_def)
  next
    case (Abort ex)
    with Cons.prems show ?thesis by simp
  next
    case (Visit fn v)
    with Cons.prems consider "verdict e c a fn v = Sentinel" | "verdict e c a fn v = Raises TypeError"
      by auto
    then show ?thesis
    proof cases
      case 1
      have "fst (step e c a x s) = None"
        using 1 Visit by (simp add: for_version_raise)
      moreover have "alert_versions (snd (step e c a x s)) = alert_versions s"
        "deleted_versions (snd (step e c a x s)) = deleted_versions s"
        "calls (snd (step e c a x s)) = calls s"
        using 1 Visit by (simp_all add: for_version_alerts for_version_deleted for_version_calls)
      moreover have "(\<exists>fn' v'. Visit fn' v' \<in> set (x # xs)
                         \<and> verdict e c a fn' v' = Raises TypeError)
                     \<longleftrightarrow> (\<exists>fn' v'. Visit fn' v' \<in> set xs
                              \<and> verdict e c a fn' v' = Raises TypeError)"
        using 1 Visit by auto
      ultimately show ?thesis
        using IH by (simp only: run_items_Cons option.case)
    next
      case 2
      have "fst (step e c a x s) = Some TypeError"
        using 2 Visit by (simp add: for_version_raise)
      moreover have "alert_versions (snd (step e c a x s)) = alert_versions s"
        "deleted_versions (snd (step e c a x s)) = deleted_versions s"
        "calls (snd (step e c a x s)) = calls s"
        using 2 Visit by (simp_all add: for_version_alerts for_version_deleted for_version_calls)
      moreover have "\<exists>fn' v'. Visit fn' v' \<in> set (x # xs)
                        \<and> verdict e c a fn' v' = Raises TypeError"
        using 2 Visit by auto
      ultimately show ?thesis
        by (simp only: run_items_Cons option.case fst_conv snd_conv if_True simp_thms)
    qed
  qed
qed

lemma notifier_invocations_logger:
  "notifier_invocations (logger l m s) = notifier_invocations s + (if notification (l, m) then 1 else 0)"
  by (simp add: notifier_invocations_def logger_def)

lemma emails_attempted_logger: "emails_attempted (logger l m s) = emails_attempted s"
  by (simp add: emails_attempted_def logger_def)

lemma started_counts: "notifier_invocations (started e) = 0" "emails_attempted (started e) = 0"
  by (simp_all add: notifier_invocations_def emails_attempted_def started_fields)

lemma run_items_counts:
  "notifier_invocations (snd (run_items e c a xs s)) = notifier_invocations s"
  "emails_attempted (snd (run_items e c a xs s)) = emails_attempted s"
  by (simp_all add: notifier_invocations_def emails_attempted_def run_items_notifications
      run_items_sends)

lemma step_no_completed:
  "(l, Completed) \<in> set (log (snd (step e c a x s))) \<Longrightarrow> (l, Completed) \<in> set (log s) \<or> False"
proof (cases x)
  case (Visit fn v)
  assume "(l, Completed) \<in> set (log (snd (step e c a x s)))"
  with Visit show ?thesis
    by (auto simp add: for_version_def get_invocation_count_def delete_lambda_version_def
        logger_def issue_def split: sum.splits prod.splits option.splits if_splits)
qed (auto simp add: logger_def)

lemma run_items_no_completed:
  assumes "(l, Completed) \<in> set (log (snd (run_items e c a xs s)))"
  shows "(l, Completed) \<in> set (log s)"
proof -
  let ?P = "\<lambda>s. (l, Completed) \<in> set (log s)"
  let ?Q = "\<lambda>x::item. False"
  have "\<And>x s. ?P (snd (step e c a x s)) \<Longrightarrow> ?P s \<or> ?Q x"
    by (rule step_no_completed)
  from run_items_trace [where P = ?P and Q = ?Q, OF this assms] show ?thesis
    by auto
qed

lemma notify_counts:
  "notifier_invocations (notify e s) =
     notifier_invocations s
       + (if truthy (alert_versions s) \<or> truthy (deleted_versions s) then 1 else 0)"
  "emails_attempted (notify e s) =
     emails_attempted s
       + (if (truthy (alert_versions s) \<or> truthy (deleted_versions s))
             \<and> \<not> falsy (EMAIL_RECIPIENTS e) \<and> \<not> falsy_opt (EMAIL_SENDER e) then 1 else 0)"
  by (auto simp add: notify_def send_cleanup_alert_def notifier_invocations_def
      emails_attempted_def logger_def issue_def split: option.splits)

section \<open>The policy on a timestamp that compares\<close>

lemma verdict_comparable:
  assumes "Version v \<noteq> sentinel"
    and "strptime e (LastModified v) = Inr (naive t)"
    and "tzinfo c = None" and "tzinfo a = None"
  shows "verdict e c a fn v =
           (if micros c < t
            then (if t \<le> micros a then Alerted (naive t) else Fresh)
            else if 0 < invocations e c fn (Version v) then InUse else Removed (naive t))"
  using assms by (simp add: verdict_def dt_gt_def dt_le_def naive_def)

section \<open>The registry after a run\<close>

lemma filter_map_Visit:
  "filter (survives e s) (map (Visit fn) vs) = map (Visit fn) (filter (\<lambda>v. \<not> granted e s fn v) vs)"
  by (induction vs) simp_all

lemma version_items_without:
  "version_items fn (without (granted e s fn) p) = filter (survives e s) (version_items fn p)"
  by (induction p) (simp_all add: filter_map_Visit)

lemma function_items_after_run:
  "function_items (after_run e s) fs = filter (survives e s) (function_items e fs)"
  by (induction fs) (simp_all add: after_run_def version_items_without)

lemma items_after_run:
  "items (after_run e s) p = filter (survives e s) (items e p)"
  by (induction p) (simp_all add: function_items_after_run)

lemma after_run_fields:
  "list_functions (after_run e s) = list_functions e"
  "cutoff_date (after_run e s) = cutoff_date e"
  "alert_date (after_run e s) = alert_date e"
  "started (after_run e s) = started e"
  by (simp_all add: after_run_def cutoff_date_def alert_date_def started_def)

lemma helpers_after_run:
  "strptime (after_run e s) = strptime e"
  "get_invocation_count (after_run e s) = get_invocation_count e"
  "delete_lambda_version (after_run e s) = delete_lambda_version e"
  by (auto simp add: after_run_def get_invocation_count_def delete_lambda_version_def fun_eq_iff
      split: sum.split option.split)

lemma for_version_after_run:
  "for_version (after_run e s) c a fn v s' = for_version e c a fn v s'"
  by (simp only: for_version_def helpers_after_run)

lemma step_after_run: "step (after_run e s) c a x s' = step e c a x s'"
  by (cases x) (simp_all add: for_version_after_run)

lemma run_items_after_run: "run_items (after_run e s) c a xs s' = run_items e c a xs s'"
  by (induction xs arbitrary: s') (simp_all add: step_after_run split: prod.split option.split)

section \<open>Keys of a walk\<close>

lemma keys_append: "keys (xs @ ys) = keys xs @ keys ys"
  by (induction xs rule: keys.induct) simp_all

lemma keys_version_items:
  "keys (version_items fn p) = map (\<lambda>v. (fn, Version v)) (listed p)"
proof (induction p)
  case (Page vs rest)
  have "keys (map (Visit fn) vs) = map (\<lambda>v. (fn, Version v)) vs"
    by (induction vs) simp_all
  with Page show ?case by (simp add: keys_append)
qed simp_all

lemma keys_function_items_fst:
  "(fn, vid) \<in> set (keys (function_items e fs)) \<Longrightarrow> fn \<in> set fs"
  by (induction fs) (auto simp add: keys_append keys_version_items)

lemma distinct_keys_function_items:
  assumes "distinct fs"
    and "\<forall>fn \<in> set fs. distinct (map Version (listed (list_versions_by_function e fn)))"
  shows "distinct (keys (function_items e fs))"
  using assms
proof (induction fs)
  case Nil
  then show ?case by simp
next
  case (Cons fn fs)
  have "distinct (map (\<lambda>v. (fn, Version v)) (listed (list_versions_by_function e fn)))"
    using Cons.prems by (auto simp add: distinct_map inj_on_def)
  moreover have "distinct (keys (function_items e fs))"
    using Cons by simp
  moreover have "set (map (\<lambda>v. (fn, Version v)) (listed (list_versions_by_function e fn)))
                   \<inter> set (keys (function_items e fs)) = {}"
    using Cons.prems by (auto dest: keys_function_items_fst)
  ultimately show ?case
    by (simp add: keys_append keys_version_items)
qed

lemma keys_items: "keys (items e p) = keys (function_items e (listed p))"
proof (induction p)
  case (Page fs rest)
  have "function_items e (fs @ gs) = function_items e fs @ function_items e gs" for gs
    by (induction fs) simp_all
  with Page show ?case by (simp add: keys_append)
qed simp_all

lemma distinct_keys_items:
  assumes "distinct (listed p)"
    and "\<forall>fn \<in> set (listed p). distinct (map Version (listed (list_versions_by_function e fn)))"
  shows "distinct (keys (items e p))"
  using assms by (simp add: keys_items distinct_keys_function_items)

section \<open>Walking what is left\<close>

lemma run_items_second:
  assumes "distinct (keys xs)"
    and "\<forall>k \<in> set (keys xs). k \<in> K \<longleftrightarrow> k \<in> set (deletions e c a xs)"
  shows "deleted_versions
           (snd (run_items e c a
                   (filter (\<lambda>x. case x of Visit fn v \<Rightarrow> (fn, Version v) \<notin> K | _ \<Rightarrow> True) xs) s))
         = deleted_versions s"
  using assms
proof (induction xs arbitrary: s)
  case Nil
  then show ?case by simp
next
  case (Cons x xs)
  let ?keep = "\<lambda>x. case x of Visit fn v \<Rightarrow> (fn, Version v) \<notin> K | _ \<Rightarrow> True"
  show ?case
  proof (cases x)
    case (Enter fn)
    with Cons.prems have "distinct (keys xs)"
      and "\<forall>k \<in> set (keys xs). k \<in> K \<longleftrightarrow> k \<in> set (deletions e c a xs)"
      by simp_all
    from Cons.IH [OF this, of "logger INFO (Processing fn) s"] Enter show ?thesis
      by (simp add: logger_fields)
  next
    case (Abort ex)
    then show ?thesis by simp
  next
    case (Visit fn v)
    with Cons.prems have fresh: "(fn, Version v) \<notin> set (keys xs)" and rest: "distinct (keys xs)"
      by simp_all
    have sub: "set (deletions e c a xs) \<subseteq> set (keys xs)"
      by (rule deletions_subset_keys)
    show ?thesis
    proof (cases "verdict e c a fn v")
      case (Raises ex)
      with Visit Cons.prems(2) have "(fn, Version v) \<notin> K"
        by simp
      with Visit have "filter ?keep (x # xs) = x # filter ?keep xs"
        by simp
      moreover have "fst (step e c a x s) = Some ex"
        using Visit Raises by (simp add: for_version_raise)
      moreover have "deleted_versions (snd (step e c a x s)) = deleted_versions s"
        using Visit Raises by (simp add: for_version_deleted)
      ultimately show ?thesis
        by (simp only: run_items_Cons option.case snd_conv)
    next
      case (Removed d)
      with Visit Cons.prems(2) have "(fn, Version v) \<in> K"
        by simp
      with Visit have gone: "filter ?keep (x # xs) = filter ?keep xs"
        by simp
      have "\<forall>k \<in> set (keys xs). k \<in> K \<longleftrightarrow> k \<in> set (deletions e c a xs)"
        using Cons.prems(2) Visit Removed fresh by auto
      from Cons.IH [OF rest this, of s] gone show ?thesis
        by simp
    next
      case Sentinel
      with Visit Cons.prems(2) fresh sub have "(fn, Version v) \<notin> K"
        by auto
      with Visit have kept: "filter ?keep (x # xs) = x # filter ?keep xs"
        by simp
      have "\<forall>k \<in> set (keys xs). k \<in> K \<longleftrightarrow> k \<in> set (deletions e c a xs)"
        using Cons.prems(2) Visit Sentinel by auto
      note IH = Cons.IH [OF rest this, of "snd (step e c a x s)"]
      have "fst (step e c a x s) = None"
        using Visit Sentinel by (simp add: for_version_raise)
      moreover have "deleted_versions (snd (step e c a x s)) = deleted_versions s"
        using Visit Sentinel by (simp add: for_version_deleted)
      ultimately show ?thesis
        using IH kept by (simp only: run_items_Cons option.case)
    next
      case Fresh
      with Visit Cons.prems(2) fresh sub have "(fn, Version v) \<notin> K"
        by auto
      with Visit have kept: "filter ?keep (x # xs) = x # filter ?keep xs"
        by simp
      have "\<forall>k \<in> set (keys xs). k \<in> K \<longleftrightarrow> k \<in> set (deletions e c a xs)"
        using Cons.prems(2) Visit Fresh by auto
      note IH = Cons.IH [OF rest this, of "snd (step e c a x s)"]
      have "fst (step e c a x s) = None"
        using Visit Fresh by (simp add: for_version_raise)
      moreover have "deleted_versions (snd (step e c a x s)) = deleted_versions s"
        using Visit Fresh by (simp add: for_version_deleted)
      ultimately show ?thesis
        using IH kept by (simp only: run_items_Cons option.case)
    next
      case (Alerted d)
      with Visit Cons.prems(2) fresh sub have "(fn, Version v) \<notin> K"
        by auto
      with Visit have kept: "filter ?keep (x # xs) = x # filter ?keep xs"
        by simp
      have "\<forall>k \<in> set (keys xs). k \<in> K \<longleftrightarrow> k \<in> set (deletions e c a xs)"
        using Cons.prems(2) Visit Alerted by auto
      note IH = Cons.IH [OF rest this, of "snd (step e c a x s)"]
      have "fst (step e c a x s) = None"
        using Visit Alerted by (simp add: for_version_raise)
      moreover have "deleted_versions (snd (step e c a x s)) = deleted_versions s"
        using Visit Alerted by (simp add: for_version_deleted)
      ultimately show ?thesis
        using IH kept by (simp only: run_items_Cons option.case)
    next
      case InUse
      with Visit Cons.prems(2) fresh sub have "(fn, Version v) \<notin> K"
        by auto
      with Visit have kept: "filter ?keep (x # xs) = x # filter ?keep xs"
        by simp
      have "\<forall>k \<in> set (keys xs). k \<in> K \<longleftrightarrow> k \<in> set (deletions e c a xs)"
        using Cons.prems(2) Visit InUse by auto
      note IH = Cons.IH [OF rest this, of "snd (step e c a x s)"]
      have "fst (step e c a x s) = None"
        using Visit InUse by (simp add: for_version_raise)
      moreover have "deleted_versions (snd (step e c a x s)) = deleted_versions s"
        using Visit InUse by (simp add: for_version_deleted)
      ultimately show ?thesis
        using IH kept by (simp only: run_items_Cons option.case)
    qed
  qed
qed

lemma handler_deleted_versions:
  "deleted_versions (snd (lambda_handler e)) =
     (case cutoff_date e of
        Inl ex \<Rightarrow> []
      | Inr c \<Rightarrow>
         (case alert_date e of
            Inl ex \<Rightarrow> []
          | Inr a \<Rightarrow>
              deleted_versions (snd (run_items e c a (items e (list_functions e)) (started e)))))"
proof (cases e rule: lambda_handler_cases)
  case (overflow ex)
  then show ?thesis
    by (auto simp add: logger_fields started_fields split: sum.splits
        dest!: arg_cong [where f = "\<lambda>s. set (deleted_versions s)"])
next
  case (raised c a ex s')
  then show ?thesis by (simp add: logger_fields)
next
  case (completed c a s')
  then show ?thesis by (simp add: logger_fields notify_lists)
qed

section \<open>Facts about every environment\<close>





text \<open>
  A version that reaches line 91 is on \<open>deleted_versions\<close> whatever the registry
  answers to the delete request.
\<close>

lemma recorded_before_deleted:
  assumes "verdict e c a fn v = Removed d"
  shows "deleted_versions (snd (for_version e c a fn v s)) = deleted_versions s @ [(fn, Version v, d)]
         \<and> deleted_versions (snd (for_version (e\<lparr>delete_function := refuse\<rparr>) c a fn v s))
             = deleted_versions s @ [(fn, Version v, d)]"
proof -
  have same: "invocations (e\<lparr>delete_function := refuse\<rparr>) = invocations e"
    by (simp add: invocations_def fun_eq_iff)
  have "verdict (e\<lparr>delete_function := refuse\<rparr>) c a fn v = verdict e c a fn v"
    unfolding verdict_def same by simp
  with assms show ?thesis
    by (simp add: for_version_deleted)
qed

text \<open>
  The recipients list is never empty, so the guard of line 141 only ever
  looks at the sender.
\<close>

lemma split_comma_truthy: "truthy (split_comma cs)"
  by (induction cs) (simp_all split: list.split)

lemma recipients_never_missing: "falsy (EMAIL_RECIPIENTS e) = False"
  using split_comma_truthy [of "case EMAIL_RECIPIENTS_var e of None \<Rightarrow> [] | Some v \<Rightarrow> v"]
  by (cases "EMAIL_RECIPIENTS e") (simp_all add: EMAIL_RECIPIENTS_def)

lemma guard_is_sender_only:
  "send_cleanup_alert e alerts deleted s = logger ERROR MissingEmailConfig s
     \<longleftrightarrow> falsy_opt (EMAIL_SENDER e)"
  by (auto simp add: send_cleanup_alert_def recipients_never_missing logger_def issue_def
      split: option.splits dest!: arg_cong [where f = log])

text \<open>
  What is on the lists got there by the tests of lines 79, 80 and 86: an
  alerted version compared as newer than the cutoff and not newer than the
  alert date, a deleted one compared as old and summed to no invocation.
\<close>

lemma window:
  assumes "cutoff_date e = Inr c" and "alert_date e = Inr a"
  shows "micros c = now e Line54 - RETENTION_DAYS e * day
         \<and> micros a = now e Line55 - (RETENTION_DAYS e - ALERT_DAYS e) * day"
  using assms
  by (auto simp add: cutoff_date_def alert_date_def minus_days_def naive_def split: if_splits)

lemma alerted_only_inside_window:
  assumes "(fn, vid, d) \<in> set (alert_versions (snd (lambda_handler e)))"
  shows "\<exists>c a. cutoff_date e = Inr c \<and> alert_date e = Inr a \<and> tzinfo d = None
               \<and> micros c < micros d \<and> micros d \<le> micros a"
proof -
  from handler_alerts [OF assms] obtain c a v
    where c: "cutoff_date e = Inr c" and a: "alert_date e = Inr a"
      and v: "verdict e c a fn v = Alerted d"
    by auto
  from verdict_Alerted [OF v] have "dt_gt d c = Inr True" and "dt_le d a = Inr True"
    by simp_all
  with cutoff_date_naive [OF c] alert_date_naive [OF a]
  have "tzinfo d = None \<and> micros c < micros d \<and> micros d \<le> micros a"
    by (auto simp add: dt_gt_def dt_le_def split: option.splits)
  with c a show ?thesis
    by auto
qed

lemma deleted_only_when_old_and_unused:
  assumes "(fn, vid, d) \<in> set (deleted_versions (snd (lambda_handler e)))"
  shows "\<exists>c. cutoff_date e = Inr c \<and> tzinfo d = None \<and> micros d \<le> micros c
             \<and> invocations e c fn vid \<le> 0"
proof -
  from handler_deleted [OF assms] obtain c a v
    where c: "cutoff_date e = Inr c" and vid: "vid = Version v"
      and v: "verdict e c a fn v = Removed d"
    by auto
  from verdict_Removed [OF v] have "dt_gt d c = Inr False" and "invocations e c fn (Version v) \<le> 0"
    by simp_all
  with cutoff_date_naive [OF c] vid
  have "tzinfo d = None \<and> micros d \<le> micros c \<and> invocations e c fn vid \<le> 0"
    by (auto simp add: dt_gt_def split: option.splits)
  with c show ?thesis
    by auto
qed

section \<open>Runs that differ only in what the clients answer\<close>















section \<open>Evaluating the examples\<close>

lemmas example_defs = whole_registry_def comparable_registry_def metrics_down_def
  deletes_refused_def no_recipients_def registry_of_def
  registry_strptime_def registry_strftime_def offset_dropped_def
  head_version_def version_1_def version_2_def version_3_def version_4_def

lemmas clock_defs = cutoff_date_def alert_date_def minus_days_def naive_def aware_def
  day_def max_micros_def dt_gt_def dt_le_def

lemmas run_defs = lambda_handler_def cleanup_def started_def init_state_def logger_def issue_def
  for_version_def sentinel_def get_invocation_count_def delete_lambda_version_def
  notify_def send_cleanup_alert_def EMAIL_RECIPIENTS_def resource_def

section \<open>The claims\<close>

text \<open>
  C1.  An old version without invocations is not deleted when its timestamp
  is the registry's.  The registry lists the mutable head and version 1, last
  modified 35 days ago and never invoked since the cutoff.  The timestamp
  parses to an aware value, the test of line 79 raises \<open>TypeError\<close>, and the
  run ends there: no metric lookup, no delete request, nothing on
  \<open>deleted_versions\<close>.
\<close>

theorem old_unused_version_survives:
  "strptime (registry_of [head_version, version_1]) (LastModified version_1)
     = Inr (aware 63863294400000000 0)
   \<and> cutoff_date (registry_of [head_version, version_1]) = Inr (naive 63863726400000000)
   \<and> invocations (registry_of [head_version, version_1]) (naive 63863726400000000)
        ''janitor_test'' ''1'' = 0
   \<and> lambda_handler (registry_of [head_version, version_1])
       = (Some TypeError,
          \<lparr>alert_versions = [], deleted_versions = [], calls = [],
           log = [(INFO, Starting), (INFO, RetentionSet 30 7),
                  (INFO, Processing ''janitor_test''),
                  (DEBUG, Evaluating ''1'' (aware 63863294400000000 0)),
                  (ERROR, CleanupError TypeError)]\<rparr>)"
  by (simp add: run_defs example_defs clock_defs invocations_def)

text \<open>
  C2.  A version whose timestamp does not compare as old (the test of line 79
  comes out true, or raises) is never the target of a delete request and is
  never put on \<open>deleted_versions\<close>, whatever the metrics store says about it.
  Version identifiers are unique within a function's listing.
\<close>

theorem newer_version_never_deleted:
  assumes cutoff: "cutoff_date e = Inr c"
    and parsed: "strptime e (LastModified v) = Inr d"
    and newer: "dt_gt d c \<noteq> Inr False"
    and listed: "v \<in> set (listed (list_versions_by_function e fn))"
    and unique: "distinct (map Version (listed (list_versions_by_function e fn)))"
  shows "DeleteFunction fn (Version v) \<notin> set (calls (snd (lambda_handler e)))
         \<and> (\<forall>d'. (fn, Version v, d') \<notin> set (deleted_versions (snd (lambda_handler e))))"
proof -
  have kept: "\<not> (\<exists>a v' d'. Visit fn v' \<in> set (items e (list_functions e))
                 \<and> Version v' = Version v \<and> verdict e c a fn v' = Removed d')"
  proof
    assume "\<exists>a v' d'. Visit fn v' \<in> set (items e (list_functions e))
                 \<and> Version v' = Version v \<and> verdict e c a fn v' = Removed d'"
    then obtain a v' d' where v': "Visit fn v' \<in> set (items e (list_functions e))"
      and same: "Version v' = Version v" and removed: "verdict e c a fn v' = Removed d'"
      by blast
    from v' have "v' \<in> set (listed (list_versions_by_function e fn))"
      by (simp add: items_listed)
    with listed same unique have "v' = v"
      by (meson distinct_map inj_onD)
    with removed parsed newer show False
      by (auto dest: verdict_Removed)
  qed
  have "DeleteFunction fn (Version v) \<notin> set (calls (snd (lambda_handler e)))"
    using kept cutoff by (auto simp add: handler_deletes dest!: deletions_Removed)
  moreover have "(fn, Version v, d') \<notin> set (deleted_versions (snd (lambda_handler e)))" for d'
    using kept cutoff by (auto dest!: handler_deleted)
  ultimately show ?thesis by blast
qed

theorem newer_version_never_deleted_witness:
  "cutoff_date whole_registry = Inr (naive 63863726400000000)
   \<and> strptime whole_registry (LastModified version_4) = Inr (aware 63865454400000000 0)
   \<and> dt_gt (aware 63865454400000000 0) (naive 63863726400000000) = Inl TypeError
   \<and> DeleteFunction ''janitor_test'' ''4'' \<notin> set (calls (snd (lambda_handler whole_registry)))
   \<and> (\<forall>d'. (''janitor_test'', ''4'', d')
             \<notin> set (deleted_versions (snd (lambda_handler whole_registry))))
   \<and> strptime comparable_registry (LastModified version_4) = Inr (naive 63865454400000000)
   \<and> dt_gt (naive 63865454400000000) (naive 63863726400000000) = Inr True
   \<and> DeleteFunction ''janitor_test'' ''4''
        \<notin> set (calls (snd (lambda_handler comparable_registry)))
   \<and> (\<forall>d'. (''janitor_test'', ''4'', d')
             \<notin> set (deleted_versions (snd (lambda_handler comparable_registry))))"
proof -
  have c: "cutoff_date whole_registry = Inr (naive 63863726400000000)"
    by (simp add: example_defs clock_defs)
  have p: "strptime whole_registry (LastModified version_4) = Inr (aware 63865454400000000 0)"
    by (simp add: example_defs)
  have n: "dt_gt (aware 63865454400000000 0) (naive 63863726400000000) = Inl TypeError"
    by (simp add: clock_defs)
  have l: "version_4 \<in> set (listed (list_versions_by_function whole_registry ''janitor_test''))"
    by (simp add: example_defs)
  have u: "distinct (map Version (listed (list_versions_by_function whole_registry ''janitor_test'')))"
    by (simp add: example_defs)
  have c': "cutoff_date comparable_registry = Inr (naive 63863726400000000)"
    by (simp add: example_defs clock_defs)
  have p': "strptime comparable_registry (LastModified version_4) = Inr (naive 63865454400000000)"
    by (simp add: example_defs naive_def aware_def)
  have n': "dt_gt (naive 63865454400000000) (naive 63863726400000000) = Inr True"
    by (simp add: clock_defs)
  have l': "version_4 \<in> set (listed (list_versions_by_function comparable_registry ''janitor_test''))"
    by (simp add: example_defs)
  have u': "distinct (map Version (listed (list_versions_by_function comparable_registry ''janitor_test'')))"
    by (simp add: example_defs)
  have v: "Version version_4 = ''4''"
    by (simp add: version_4_def)
  from n have n0: "dt_gt (aware 63865454400000000 0) (naive 63863726400000000) \<noteq> Inr False"
    by simp
  from n' have n0': "dt_gt (naive 63865454400000000) (naive 63863726400000000) \<noteq> Inr False"
    by simp
  from newer_version_never_deleted [OF c p n0 l u] newer_version_never_deleted [OF c' p' n0' l' u']
    c p n p' n' v
  show ?thesis by simp
qed

text \<open>
  C3.  A version inside the alert window is not alerted when its timestamp is
  the registry's.  The registry lists the mutable head and version 3, last
  modified 25 days ago, between the cutoff (30 days) and the alert date
  (23 days).  The test of line 79 raises \<open>TypeError\<close> on the aware timestamp
  and the run ends with \<open>alert_versions\<close> empty.
\<close>

theorem version_in_alert_window_not_alerted:
  "strptime (registry_of [head_version, version_3]) (LastModified version_3)
     = Inr (aware 63864158400000000 0)
   \<and> cutoff_date (registry_of [head_version, version_3]) = Inr (naive 63863726400000000)
   \<and> alert_date (registry_of [head_version, version_3]) = Inr (naive 63864331200000000)
   \<and> lambda_handler (registry_of [head_version, version_3])
       = (Some TypeError,
          \<lparr>alert_versions = [], deleted_versions = [], calls = [],
           log = [(INFO, Starting), (INFO, RetentionSet 30 7),
                  (INFO, Processing ''janitor_test''),
                  (DEBUG, Evaluating ''3'' (aware 63864158400000000 0)),
                  (ERROR, CleanupError TypeError)]\<rparr>)"
  by (simp add: run_defs example_defs clock_defs)

text \<open>
  C4.  The registry's timestamps carry an offset, so \<open>strptime\<close> makes them
  aware, while the cutoff comes from a naive \<open>datetime.now()\<close>.  In a run
  whose listings succeed and hold at least one numbered version, the
  comparison of line 79 raises \<open>TypeError\<close> at the first such version; the
  handler logs it and raises it again.  Nothing has been put on either list by
  then, no client call has been issued and the notifier has not run.
\<close>

theorem aware_timestamp_aborts_run:
  assumes cutoff: "cutoff_date e = Inr c"
    and alert: "alert_date e = Inr a"
    and functions_listed: "failure (list_functions e) = None"
    and versions_listed:
      "\<forall>fn \<in> set (listed (list_functions e)). failure (list_versions_by_function e fn) = None"
    and some_version:
      "\<exists>fn \<in> set (listed (list_functions e)).
         \<exists>v \<in> set (listed (list_versions_by_function e fn)). Version v \<noteq> sentinel"
    and aware_timestamps:
      "\<forall>fn \<in> set (listed (list_functions e)).
         \<forall>v \<in> set (listed (list_versions_by_function e fn)).
           Version v \<noteq> sentinel \<longrightarrow>
             (\<exists>d. strptime e (LastModified v) = Inr d \<and> tzinfo d \<noteq> None)"
  shows "fst (lambda_handler e) = Some TypeError
         \<and> alert_versions (snd (lambda_handler e)) = []
         \<and> deleted_versions (snd (lambda_handler e)) = []
         \<and> calls (snd (lambda_handler e)) = []
         \<and> notifier_invocations (snd (lambda_handler e)) = 0
         \<and> last (log (snd (lambda_handler e))) = (ERROR, CleanupError TypeError)
         \<and> (INFO, Completed) \<notin> set (log (snd (lambda_handler e)))"
proof -
  let ?xs = "items e (list_functions e)"
  have naive: "tzinfo c = None"
    using cutoff by (rule cutoff_date_naive)
  have each: "\<forall>x \<in> set ?xs.
             case x of
               Enter fn \<Rightarrow> True
             | Abort ex \<Rightarrow> False
             | Visit fn v \<Rightarrow> verdict e c a fn v = Sentinel \<or> verdict e c a fn v = Raises TypeError"
  proof
    fix x
    assume x: "x \<in> set ?xs"
    show "case x of
               Enter fn \<Rightarrow> True
             | Abort ex \<Rightarrow> False
             | Visit fn v \<Rightarrow> verdict e c a fn v = Sentinel \<or> verdict e c a fn v = Raises TypeError"
    proof (cases x)
      case (Enter fn)
      then show ?thesis by simp
    next
      case (Abort ex)
      with x functions_listed versions_listed show ?thesis
        by (auto simp add: items_Abort)
    next
      case (Visit fn v)
      with x have fn: "fn \<in> set (listed (list_functions e))"
        and v: "v \<in> set (listed (list_versions_by_function e fn))"
        by (simp_all add: items_Visit)
      show ?thesis
      proof (cases "Version v = sentinel")
        case True
        with Visit show ?thesis by (simp add: verdict_Sentinel)
      next
        case False
        with aware_timestamps fn v obtain d
          where "strptime e (LastModified v) = Inr d" and "tzinfo d \<noteq> None"
          by blast
        with False naive have "verdict e c a fn v = Raises TypeError"
          by (simp add: verdict_aware)
        with Visit show ?thesis by simp
      qed
    qed
  qed
  from some_version obtain fn v where fn: "fn \<in> set (listed (list_functions e))"
    and v: "v \<in> set (listed (list_versions_by_function e fn))" and head: "Version v \<noteq> sentinel"
    by blast
  from aware_timestamps fn v head obtain d
    where "strptime e (LastModified v) = Inr d" and "tzinfo d \<noteq> None"
    by blast
  with head naive have "verdict e c a fn v = Raises TypeError"
    by (simp add: verdict_aware)
  moreover from fn v have "Visit fn v \<in> set ?xs"
    by (simp add: items_Visit)
  ultimately have raising: "\<exists>fn v. Visit fn v \<in> set ?xs \<and> verdict e c a fn v = Raises TypeError"
    by blast
  obtain r s' where run: "run_items e c a ?xs (started e) = (r, s')"
    by (cases "run_items e c a ?xs (started e)")
  from run_items_all_raise [OF each, of "started e"] raising run
  have r: "r = Some TypeError" and lists: "alert_versions s' = []" "deleted_versions s' = []"
    and no_calls: "calls s' = []"
    by (simp_all add: started_fields)
  from run have s': "s' = snd (run_items e c a ?xs (started e))"
    by simp
  have quiet: "notifier_invocations s' = 0"
    by (simp add: s' run_items_counts started_counts)
  have unfinished: "(INFO, Completed) \<notin> set (log s')"
    unfolding s' by (auto dest!: run_items_no_completed simp add: started_fields)
  have "lambda_handler e = (Some TypeError, logger ERROR (CleanupError TypeError) s')"
    using cutoff alert run r
    by (simp add: lambda_handler_def cleanup_def started_reset for_function_pages_items)
  with lists no_calls quiet unfinished show ?thesis
    by (simp add: logger_fields notifier_invocations_logger)
qed

theorem aware_timestamp_aborts_run_witness:
  "listed (list_versions_by_function whole_registry ''janitor_test'')
     = [head_version, version_1, version_2, version_3, version_4]
   \<and> strptime whole_registry (LastModified version_1) = Inr (aware 63863294400000000 0)
   \<and> fst (lambda_handler whole_registry) = Some TypeError
   \<and> alert_versions (snd (lambda_handler whole_registry)) = []
   \<and> deleted_versions (snd (lambda_handler whole_registry)) = []
   \<and> calls (snd (lambda_handler whole_registry)) = []
   \<and> notifier_invocations (snd (lambda_handler whole_registry)) = 0
   \<and> last (log (snd (lambda_handler whole_registry))) = (ERROR, CleanupError TypeError)
   \<and> (INFO, Completed) \<notin> set (log (snd (lambda_handler whole_registry)))"
proof -
  have c: "cutoff_date whole_registry = Inr (naive 63863726400000000)"
    by (simp add: example_defs clock_defs)
  have a: "alert_date whole_registry = Inr (naive 63864331200000000)"
    by (simp add: example_defs clock_defs)
  have f: "failure (list_functions whole_registry) = None"
    by (simp add: example_defs)
  have g: "\<forall>fn \<in> set (listed (list_functions whole_registry)).
             failure (list_versions_by_function whole_registry fn) = None"
    by (simp add: example_defs)
  have s: "\<exists>fn \<in> set (listed (list_functions whole_registry)).
             \<exists>v \<in> set (listed (list_versions_by_function whole_registry fn)). Version v \<noteq> sentinel"
    by (simp add: example_defs sentinel_def)
  have t: "\<forall>fn \<in> set (listed (list_functions whole_registry)).
             \<forall>v \<in> set (listed (list_versions_by_function whole_registry fn)).
               Version v \<noteq> sentinel \<longrightarrow>
                 (\<exists>d. strptime whole_registry (LastModified v) = Inr d \<and> tzinfo d \<noteq> None)"
    by (simp add: example_defs sentinel_def aware_def)
  have l: "listed (list_versions_by_function whole_registry ''janitor_test'')
             = [head_version, version_1, version_2, version_3, version_4]"
    by (simp add: example_defs)
  have p: "strptime whole_registry (LastModified version_1) = Inr (aware 63863294400000000 0)"
    by (simp add: example_defs)
  from aware_timestamp_aborts_run [OF c a f g s t] l p show ?thesis
    by simp
qed

text \<open>
  C5.  The mutable head \<open>$LATEST\<close> is never classified: no run puts it on
  \<open>alert_versions\<close> or \<open>deleted_versions\<close>, looks its metrics up, asks for its
  deletion, or reaches the line that logs its evaluation.
\<close>

theorem sentinel_never_classified:
  "(\<forall>fn d. (fn, sentinel, d) \<notin> set (alert_versions (snd (lambda_handler e)))
           \<and> (fn, sentinel, d) \<notin> set (deleted_versions (snd (lambda_handler e))))
   \<and> (\<forall>fn t1 t2. GetMetricStatistics fn (resource fn sentinel) t1 t2
                    \<notin> set (calls (snd (lambda_handler e))))
   \<and> (\<forall>fn. DeleteFunction fn sentinel \<notin> set (calls (snd (lambda_handler e))))
   \<and> (\<forall>l d. (l, Evaluating sentinel d) \<notin> set (log (snd (lambda_handler e))))"
proof -
  have "(fn, sentinel, d) \<notin> set (alert_versions (snd (lambda_handler e)))" for fn d
    by (auto dest!: handler_alerts verdict_Alerted)
  moreover have "(fn, sentinel, d) \<notin> set (deleted_versions (snd (lambda_handler e)))" for fn d
    by (auto dest!: handler_deleted verdict_Removed)
  moreover have "GetMetricStatistics fn (resource fn sentinel) t1 t2
                   \<notin> set (calls (snd (lambda_handler e)))" for fn t1 t2
    by (auto dest!: handler_metrics simp add: resource_inject)
  moreover have "DeleteFunction fn sentinel \<notin> set (calls (snd (lambda_handler e)))" for fn
    by (auto simp add: handler_deletes dest!: deletions_Removed verdict_Removed)
  moreover have "(l, Evaluating sentinel d) \<notin> set (log (snd (lambda_handler e)))" for l d
    by (auto dest: handler_evaluating)
  ultimately show ?thesis by blast
qed

theorem sentinel_never_classified_witness:
  "list_versions_by_function comparable_registry ''janitor_test''
     = Page [head_version, version_1, version_2, version_3, version_4] Exhausted
   \<and> Version head_version = sentinel
   \<and> (\<forall>fn d. (fn, sentinel, d) \<notin> set (alert_versions (snd (lambda_handler comparable_registry)))
           \<and> (fn, sentinel, d) \<notin> set (deleted_versions (snd (lambda_handler comparable_registry))))
   \<and> (\<forall>fn t1 t2. GetMetricStatistics fn (resource fn sentinel) t1 t2
                    \<notin> set (calls (snd (lambda_handler comparable_registry))))
   \<and> (\<forall>fn. DeleteFunction fn sentinel \<notin> set (calls (snd (lambda_handler comparable_registry))))
   \<and> (\<forall>l d. (l, Evaluating sentinel d) \<notin> set (log (snd (lambda_handler comparable_registry))))
   \<and> list_versions_by_function whole_registry ''janitor_test''
       = Page [head_version, version_1, version_2, version_3, version_4] Exhausted
   \<and> (\<forall>fn d. (fn, sentinel, d) \<notin> set (alert_versions (snd (lambda_handler whole_registry)))
           \<and> (fn, sentinel, d) \<notin> set (deleted_versions (snd (lambda_handler whole_registry))))
   \<and> (\<forall>fn t1 t2. GetMetricStatistics fn (resource fn sentinel) t1 t2
                    \<notin> set (calls (snd (lambda_handler whole_registry))))
   \<and> (\<forall>fn. DeleteFunction fn sentinel \<notin> set (calls (snd (lambda_handler whole_registry))))
   \<and> (\<forall>l d. (l, Evaluating sentinel d) \<notin> set (log (snd (lambda_handler whole_registry))))"
proof -
  have "list_versions_by_function comparable_registry ''janitor_test''
     = Page [head_version, version_1, version_2, version_3, version_4] Exhausted"
    by (simp add: example_defs)
  moreover have "Version head_version = sentinel"
    by (simp add: head_version_def sentinel_def)
  moreover have "list_versions_by_function whole_registry ''janitor_test''
     = Page [head_version, version_1, version_2, version_3, version_4] Exhausted"
    by (simp add: example_defs)
  ultimately show ?thesis
    using sentinel_never_classified [of comparable_registry]
      sentinel_never_classified [of whole_registry]
    by blast
qed

text \<open>
  C6.  A run that gets through all functions calls \<open>send_cleanup_alert\<close>
  exactly once when one of the two lists is non-empty and not at all when both
  are empty (lines 94 and 95); a run that raises never calls it.  The call
  attempts one email when the configuration passes the guard of line 141, and
  none otherwise.
\<close>

theorem notifier_invoked_once:
  assumes "lambda_handler e = (r, s)"
  shows "(r = None \<longrightarrow>
            notifier_invocations s
              = (if truthy (alert_versions s) \<or> truthy (deleted_versions s) then 1 else 0)
            \<and> emails_attempted s
              = (if (truthy (alert_versions s) \<or> truthy (deleted_versions s))
                    \<and> \<not> falsy (EMAIL_RECIPIENTS e) \<and> \<not> falsy_opt (EMAIL_SENDER e)
                 then 1 else 0))
         \<and> (r \<noteq> None \<longrightarrow> notifier_invocations s = 0 \<and> emails_attempted s = 0)"
proof (cases e rule: lambda_handler_cases)
  case (overflow ex)
  with assms show ?thesis
    by (auto simp add: notifier_invocations_logger emails_attempted_logger started_counts)
next
  case (raised c a ex s')
  from raised(3) have "s' = snd (run_items e c a (items e (list_functions e)) (started e))"
    by simp
  with raised(4) assms show ?thesis
    by (auto simp add: notifier_invocations_logger emails_attempted_logger run_items_counts
        started_counts)
next
  case (completed c a s')
  from completed(3) have "s' = snd (run_items e c a (items e (list_functions e)) (started e))"
    by simp
  then have "notifier_invocations s' = 0" "emails_attempted s' = 0"
    by (simp_all add: run_items_counts started_counts)
  with completed(4) assms show ?thesis
    by (auto simp add: notifier_invocations_logger emails_attempted_logger notify_counts
        logger_fields notify_lists)
qed

theorem notifier_invoked_once_witness:
  "fst (lambda_handler comparable_registry) = None
   \<and> truthy (deleted_versions (snd (lambda_handler comparable_registry)))
   \<and> notifier_invocations (snd (lambda_handler comparable_registry)) = 1
   \<and> emails_attempted (snd (lambda_handler comparable_registry)) = 1
   \<and> fst (lambda_handler (registry_of [head_version])) = None
   \<and> alert_versions (snd (lambda_handler (registry_of [head_version]))) = []
   \<and> deleted_versions (snd (lambda_handler (registry_of [head_version]))) = []
   \<and> notifier_invocations (snd (lambda_handler (registry_of [head_version]))) = 0
   \<and> emails_attempted (snd (lambda_handler (registry_of [head_version]))) = 0"
proof -
  have r: "fst (lambda_handler comparable_registry) = None"
    by (simp add: run_defs example_defs clock_defs)
  have d: "deleted_versions (snd (lambda_handler comparable_registry))
             = [(''janitor_test'', ''1'', naive 63863294400000000)]"
    by (simp add: run_defs example_defs clock_defs)
  have c: "\<not> falsy (EMAIL_RECIPIENTS comparable_registry)"
    "\<not> falsy_opt (EMAIL_SENDER comparable_registry)"
    by (simp_all add: example_defs EMAIL_RECIPIENTS_def)
  have r': "fst (lambda_handler (registry_of [head_version])) = None"
    by (simp add: run_defs example_defs clock_defs)
  have l': "alert_versions (snd (lambda_handler (registry_of [head_version]))) = []"
    "deleted_versions (snd (lambda_handler (registry_of [head_version]))) = []"
    by (simp_all add: run_defs example_defs clock_defs)
  from notifier_invoked_once [OF surjective_pairing, of comparable_registry]
    notifier_invoked_once [OF surjective_pairing, of "registry_of [head_version]"]
    r d c r' l'
  show ?thesis by simp
qed



text \<open>
  C8.  With \<open>EMAIL_RECIPIENTS\<close> unset and the sender set, the notification is
  not skipped: line 39 splits the empty string into a list holding one empty
  string, the list is truthy, the guard of line 141 passes, and an email to
  that empty address is attempted.
\<close>

theorem unset_recipients_still_send:
  "EMAIL_RECIPIENTS_var no_recipients = None
   \<and> EMAIL_SENDER no_recipients = Some ''notify@example.com''
   \<and> EMAIL_RECIPIENTS no_recipients = [[]]
   \<and> send_cleanup_alert no_recipients []
        [(''janitor_test'', ''1'', aware 63863294400000000 0)] init_state
       = \<lparr>alert_versions = [], deleted_versions = [],
          calls = [SendEmail ''notify@example.com'' [[]] ''Lambda Cleanup Notification''
                     (message_body no_recipients []
                        [(''janitor_test'', ''1'', aware 63863294400000000 0)])],
          log = [(INFO, EmailSent [[]])]\<rparr>"
  by (simp add: run_defs example_defs)



text \<open>
  C10.  Run the handler, let the registry drop every version whose deletion
  was asked for and granted, and run the handler again on what is left, with
  the same clock, metrics store and configuration.  When every delete request
  of the first run was granted, the second run puts nothing on
  \<open>deleted_versions\<close>.  Function names are unique in the listing, and version
  identifiers are unique within each function.
\<close>

theorem second_run_deletes_nothing:
  assumes names: "distinct (listed (list_functions e))"
    and identifiers:
      "\<forall>fn \<in> set (listed (list_functions e)).
         distinct (map Version (listed (list_versions_by_function e fn)))"
    and effective:
      "\<forall>fn vid. DeleteFunction fn vid \<in> set (calls (snd (lambda_handler e)))
                 \<longrightarrow> delete_function e fn vid = None"
  shows "deleted_versions (snd (lambda_handler (after_run e (snd (lambda_handler e))))) = []"
proof (cases "cutoff_date e")
  case (Inl ex)
  then show ?thesis
    by (simp add: handler_deleted_versions after_run_fields)
next
  case c: (Inr c)
  show ?thesis
  proof (cases "alert_date e")
    case (Inl ex)
    with c show ?thesis
      by (simp add: handler_deleted_versions after_run_fields)
  next
    case a: (Inr a)
    let ?s = "snd (lambda_handler e)"
    let ?xs = "items e (list_functions e)"
    let ?K = "set (deletions e c a ?xs)"
    have granted: "granted e ?s fn v \<longleftrightarrow> (fn, Version v) \<in> ?K" for fn v
      using effective c a by (auto simp add: granted_def handler_deletes)
    have "survives e ?s = (\<lambda>x. case x of Visit fn v \<Rightarrow> (fn, Version v) \<notin> ?K | _ \<Rightarrow> True)"
    proof
      fix x
      show "survives e ?s x = (case x of Visit fn v \<Rightarrow> (fn, Version v) \<notin> ?K | _ \<Rightarrow> True)"
        by (cases x) (simp_all add: granted)
    qed
    then have left: "items (after_run e ?s) (list_functions e)
                 = filter (\<lambda>x. case x of Visit fn v \<Rightarrow> (fn, Version v) \<notin> ?K | _ \<Rightarrow> True) ?xs"
      by (simp add: items_after_run)
    have "distinct (keys ?xs)"
      using names identifiers by (rule distinct_keys_items)
    moreover have "\<forall>k \<in> set (keys ?xs). k \<in> ?K \<longleftrightarrow> k \<in> set (deletions e c a ?xs)"
      by simp
    ultimately have "deleted_versions
           (snd (run_items e c a
                   (filter (\<lambda>x. case x of Visit fn v \<Rightarrow> (fn, Version v) \<notin> ?K | _ \<Rightarrow> True) ?xs)
                   (started e)))
         = deleted_versions (started e)"
      by (rule run_items_second)
    with c a left show ?thesis
      by (simp add: handler_deleted_versions after_run_fields run_items_after_run started_fields)
  qed
qed

theorem second_run_deletes_nothing_witness:
  "deleted_versions (snd (lambda_handler comparable_registry))
     = [(''janitor_test'', ''1'', naive 63863294400000000)]
   \<and> listed (list_versions_by_function
               (after_run comparable_registry (snd (lambda_handler comparable_registry)))
               ''janitor_test'')
       = [head_version, version_2, version_3, version_4]
   \<and> deleted_versions
        (snd (lambda_handler
                (after_run comparable_registry (snd (lambda_handler comparable_registry)))))
       = []
   \<and> deleted_versions
        (snd (lambda_handler (after_run whole_registry (snd (lambda_handler whole_registry)))))
       = []"
proof -
  have n: "distinct (listed (list_functions comparable_registry))"
    by (simp add: example_defs)
  have i: "\<forall>fn \<in> set (listed (list_functions comparable_registry)).
             distinct (map Version (listed (list_versions_by_function comparable_registry fn)))"
    by (simp add: example_defs)
  have g: "\<forall>fn vid. DeleteFunction fn vid \<in> set (calls (snd (lambda_handler comparable_registry)))
                    \<longrightarrow> delete_function comparable_registry fn vid = None"
    by (simp add: example_defs)
  have d: "deleted_versions (snd (lambda_handler comparable_registry))
             = [(''janitor_test'', ''1'', naive 63863294400000000)]"
    by (simp add: run_defs example_defs clock_defs)
  have c: "calls (snd (lambda_handler comparable_registry))
             = [GetMetricStatistics ''janitor_test'' ''janitor_test:1''
                  (naive 63863726400000000) (naive 63866318400000000),
                DeleteFunction ''janitor_test'' ''1'',
                GetMetricStatistics ''janitor_test'' ''janitor_test:2''
                  (naive 63863726400000000) (naive 63866318400000000),
                SendEmail ''notify@example.com'' [''user@example.com'', ''admin@example.com'']
                  ''Lambda Cleanup Notification''
                  (message_body comparable_registry
                     [(''janitor_test'', ''3'', naive 63864158400000000)]
                     [(''janitor_test'', ''1'', naive 63863294400000000)])]"
    by (simp add: run_defs example_defs clock_defs)
  have l: "listed (list_versions_by_function
               (after_run comparable_registry (snd (lambda_handler comparable_registry)))
               ''janitor_test'')
       = [head_version, version_2, version_3, version_4]"
    unfolding after_run_def granted_def c
    by (simp add: example_defs)
  have n': "distinct (listed (list_functions whole_registry))"
    by (simp add: example_defs)
  have i': "\<forall>fn \<in> set (listed (list_functions whole_registry)).
             distinct (map Version (listed (list_versions_by_function whole_registry fn)))"
    by (simp add: example_defs)
  have g': "\<forall>fn vid. DeleteFunction fn vid \<in> set (calls (snd (lambda_handler whole_registry)))
                    \<longrightarrow> delete_function whole_registry fn vid = None"
    by (simp add: example_defs)
  from second_run_deletes_nothing [OF n i g] second_run_deletes_nothing [OF n' i' g'] d l
  show ?thesis
    by simp
qed

end
